theory Spec2Isabelle
  imports Complex_Main "HOL-Library.AList"
begin

section \<open>Soccer tracking and analytics core\<close>

text \<open>
  A shallow embedding of \<^verbatim>\<open>worker/tracking/advanced_tracker.py\<close> and
  \<^verbatim>\<open>worker/analytics/possession_analyzer.py\<close>.

  Python floats are idealised as \<^typ>\<open>real\<close>; Python ints are \<^typ>\<open>int\<close>, except track ids
  and list positions, which the code only ever counts upwards from zero (\<^typ>\<open>nat\<close>).
  A \<^verbatim>\<open>dict\<close> whose iteration order the code relies on is an association list in
  insertion order: \<open>AList.update\<close> overwrites a present key in place and appends a new key,
  \<open>AList.delete\<close> drops a key. Exceptions are values of \<open>py_error\<close> on the left of a sum.
\<close>

subsection \<open>Errors and basic numerics\<close>

datatype py_error = ZeroDivisionError | KeyError | IndexError | TypeError

definition and_then :: "'e + 'a \<Rightarrow> ('a \<Rightarrow> 'e + 'b) \<Rightarrow> 'e + 'b" where
  "and_then m f = (case m of Inl e \<Rightarrow> Inl e | Inr x \<Rightarrow> f x)"

text \<open>Python's \<^verbatim>\<open>a / b\<close> on numbers: raises on a zero divisor.\<close>

definition truediv :: "real \<Rightarrow> real \<Rightarrow> py_error + real" where
  "truediv a b = (if b = 0 then Inl ZeroDivisionError else Inr (a / b))"

text \<open>\<^verbatim>\<open>np.mean\<close> of a non-empty list of numbers.\<close>

definition mean :: "real list \<Rightarrow> real" where
  "mean xs = sum_list xs / real (length xs)"

text \<open>Python's \<^verbatim>\<open>int(x)\<close> on a float: truncation towards zero.\<close>

definition py_int :: "real \<Rightarrow> int" where
  "py_int x = (if 0 \<le> x then \<lfloor>x\<rfloor> else \<lceil>x\<rceil>)"

type_synonym bbox = "real \<times> real \<times> real \<times> real"

subsection \<open>\<^verbatim>\<open>AdvancedTrack\<close>\<close>

record advanced_track =
  track_id :: nat
  bbox :: bbox
  score :: real
  frame_id :: int
  class_name :: string
  last_update :: int
  history :: "(bbox \<times> real \<times> int) list"
  velocity :: "real \<times> real"
  age :: int
  confidence_history :: "real list"
  is_confirmed :: bool
  time_since_update :: int
  kf_x :: real
  kf_y :: real
  kf_vx :: real
  kf_vy :: real

definition AdvancedTrack :: "nat \<Rightarrow> bbox \<Rightarrow> real \<Rightarrow> int \<Rightarrow> string \<Rightarrow> advanced_track" where
  "AdvancedTrack tid b sc fid cls =
     (case b of (x, y, w, h) \<Rightarrow>
       \<lparr> track_id = tid, bbox = b, score = sc, frame_id = fid, class_name = cls,
         last_update = fid, history = [(b, sc, fid)], velocity = (0, 0), age = 1,
         confidence_history = [sc], is_confirmed = False, time_since_update = 0,
         kf_x = x + w / 2, kf_y = y + h / 2, kf_vx = 0, kf_vy = 0 \<rparr>)"

text \<open>
  \<^verbatim>\<open>_update_kalman\<close>; it runs after \<^verbatim>\<open>update\<close> has appended to the history and set
  \<^verbatim>\<open>frame_id\<close>, so \<^verbatim>\<open>history[-2]\<close> is the entry before the new one.
\<close>

definition update_kalman :: "advanced_track \<Rightarrow> bbox \<Rightarrow> advanced_track" where
  "update_kalman t b =
     (case b of (x, y, w, h) \<Rightarrow>
       let center_x = x + w / 2;
           center_y = y + h / 2;
           alpha = 7 / 10;
           t1 = t\<lparr> kf_x := alpha * center_x + (1 - alpha) * kf_x t,
                   kf_y := alpha * center_y + (1 - alpha) * kf_y t \<rparr>
       in if length (history t1) \<ge> 2 then
            (case history t1 ! (length (history t1) - 2) of ((px, py, pw, ph), ps, pf) \<Rightarrow>
              let prev_center_x = px + pw / 2;
                  prev_center_y = py + ph / 2;
                  dt = frame_id t1 - pf
              in if dt > 0 then
                   t1\<lparr> kf_vx := alpha * (center_x - prev_center_x) / real_of_int dt
                                   + (1 - alpha) * kf_vx t1,
                       kf_vy := alpha * (center_y - prev_center_y) / real_of_int dt
                                   + (1 - alpha) * kf_vy t1 \<rparr>
                 else t1)
          else t1)"

definition track_update :: "advanced_track \<Rightarrow> bbox \<Rightarrow> real \<Rightarrow> int \<Rightarrow> advanced_track" where
  "track_update t b sc fid =
     (let t1 = t\<lparr> bbox := b, score := sc, frame_id := fid, last_update := fid,
                   history := history t @ [(b, sc, fid)], age := age t + 1,
                   time_since_update := 0 \<rparr>;
          ch = confidence_history t1 @ [sc];
          t2 = t1\<lparr> confidence_history := (if length ch > 10 then tl ch else ch) \<rparr>;
          t3 = (if length (history t2) \<ge> 2 then
                  (case history t2 ! (length (history t2) - 2) of ((px, py, pw, ph), ps, pf) \<Rightarrow>
                    let dt = fid - pf
                    in if dt > 0 then
                         update_kalman
                           (t2\<lparr> velocity := ((fst b - px) / real_of_int dt,
                                              (fst (snd b) - py) / real_of_int dt) \<rparr>) b
                       else t2)
                else t2)
      in if age t3 \<ge> 3 \<and> mean (confidence_history t3) > 0.5
         then t3\<lparr> is_confirmed := True \<rparr> else t3)"

definition predict :: "advanced_track \<Rightarrow> int \<Rightarrow> bbox" where
  "predict t fid =
     (let dt = fid - frame_id t
      in if dt > 0 then
           (case bbox t of (x, y, w, h) \<Rightarrow>
             let pred_center_x = kf_x t + kf_vx t * real_of_int dt;
                 pred_center_y = kf_y t + kf_vy t * real_of_int dt
             in (pred_center_x - w / 2, pred_center_y - h / 2, w, h))
         else bbox t)"

definition get_smoothed_bbox :: "advanced_track \<Rightarrow> bbox" where
  "get_smoothed_bbox t = (case bbox t of (x, y, w, h) \<Rightarrow> (kf_x t - w / 2, kf_y t - h / 2, w, h))"

definition is_active :: "advanced_track \<Rightarrow> bool" where
  "is_active t \<longleftrightarrow> time_since_update t < 10 \<and> age t > 0"

definition get_average_confidence :: "advanced_track \<Rightarrow> real" where
  "get_average_confidence t =
     (if confidence_history t \<noteq> [] then mean (confidence_history t) else 0)"

subsection \<open>\<^verbatim>\<open>AdvancedMultiObjectTracker\<close>\<close>

record detection =
  det_bbox :: bbox
  det_score :: real
  det_class :: string

record tracked_object =
  obj_track_id :: nat
  obj_bbox :: bbox
  obj_score :: real
  obj_frame_id :: int
  obj_class :: string
  obj_confidence :: real

record class_param =
  cp_match_thresh :: real
  cp_max_time_lost :: int

record tracker =
  track_thresh :: real
  match_thresh :: real
  max_time_lost :: int
  min_track_length :: int
  tracker_frame_id :: int
  track_id_count :: nat
  tracks :: "(nat \<times> advanced_track) list"
  lost_tracks :: "(nat \<times> advanced_track) list"
  removed_tracks :: "nat set"

text \<open>The \<^verbatim>\<open>class_params\<close> table is built by the constructor and never written again.\<close>

definition class_params :: "string \<Rightarrow> class_param option" where
  "class_params cls =
     (if cls = ''person'' then Some \<lparr> cp_match_thresh = 0.6, cp_max_time_lost = 20 \<rparr>
      else if cls = ''ball'' then Some \<lparr> cp_match_thresh = 0.8, cp_max_time_lost = 10 \<rparr>
      else None)"

definition AdvancedMultiObjectTracker :: "real \<Rightarrow> real \<Rightarrow> int \<Rightarrow> int \<Rightarrow> tracker" where
  "AdvancedMultiObjectTracker tt mt mtl mlen =
     \<lparr> track_thresh = tt, match_thresh = mt, max_time_lost = mtl, min_track_length = mlen,
       tracker_frame_id = 0, track_id_count = 0, tracks = [], lost_tracks = [],
       removed_tracks = {} \<rparr>"

text \<open>The constructor's default arguments.\<close>

definition default_tracker :: tracker where
  "default_tracker = AdvancedMultiObjectTracker 0.3 0.7 15 3"

text \<open>The local quantities of \<^verbatim>\<open>compute_iou\<close>, named as in the source.\<close>

definition inter_area :: "bbox \<Rightarrow> bbox \<Rightarrow> real" where
  "inter_area bbox1 bbox2 =
     (case bbox1 of (x1, y1, w1, h1) \<Rightarrow> case bbox2 of (x2, y2, w2, h2) \<Rightarrow>
       let xi1 = max x1 x2;
           yi1 = max y1 y2;
           xi2 = min (x1 + w1) (x2 + w2);
           yi2 = min (y1 + h1) (y2 + h2)
       in max 0 (xi2 - xi1) * max 0 (yi2 - yi1))"

definition union_area :: "bbox \<Rightarrow> bbox \<Rightarrow> real" where
  "union_area bbox1 bbox2 =
     (case bbox1 of (x1, y1, w1, h1) \<Rightarrow> case bbox2 of (x2, y2, w2, h2) \<Rightarrow>
       let box1_area = w1 * h1;
           box2_area = w2 * h2
       in box1_area + box2_area - inter_area bbox1 bbox2)"

definition compute_iou :: "bbox \<Rightarrow> bbox \<Rightarrow> py_error + real" where
  "compute_iou bbox1 bbox2 =
     (if union_area bbox1 bbox2 > 0
      then truediv (inter_area bbox1 bbox2) (union_area bbox1 bbox2)
      else Inr 0)"

text \<open>The first loop nest of \<^verbatim>\<open>_match_tracks\<close>: one row of costs per track.\<close>

fun cost_row :: "bbox \<Rightarrow> bbox list \<Rightarrow> py_error + real list" where
  "cost_row smoothed_bbox [] = Inr []"
| "cost_row smoothed_bbox (dbox # rest) =
     and_then (compute_iou smoothed_bbox dbox) (\<lambda>iou.
     and_then (cost_row smoothed_bbox rest) (\<lambda>row. Inr ((1 - iou) # row)))"

fun cost_rows :: "(nat \<times> advanced_track) list \<Rightarrow> bbox list \<Rightarrow> py_error + real list list" where
  "cost_rows [] det_bboxes = Inr []"
| "cost_rows ((tid, t) # rest) det_bboxes =
     and_then (cost_row (get_smoothed_bbox t) det_bboxes) (\<lambda>row.
     and_then (cost_rows rest det_bboxes) (\<lambda>rows. Inr (row # rows)))"

text \<open>
  The inner loop over \<^verbatim>\<open>unmatched_dets\<close>; \<open>None\<close> stands for the sentinel
  \<^verbatim>\<open>best_match = -1\<close>.
\<close>

fun best_of :: "real \<Rightarrow> real list \<Rightarrow> nat list \<Rightarrow> nat option \<times> real \<Rightarrow> nat option \<times> real" where
  "best_of thr row [] acc = acc"
| "best_of thr row (j # js) (best_match, best_iou) =
     (let iou = 1 - row ! j
      in if iou > thr \<and> iou > best_iou then best_of thr row js (Some j, iou)
         else best_of thr row js (best_match, best_iou))"

text \<open>The outer loop over \<^verbatim>\<open>enumerate(track_ids)\<close>.\<close>

fun greedy :: "real \<Rightarrow> real list list \<Rightarrow> (nat \<times> nat) list
    \<Rightarrow> (nat \<times> nat) list \<times> nat list \<Rightarrow> (nat \<times> nat) list \<times> nat list" where
  "greedy thr cost_matrix [] acc = acc"
| "greedy thr cost_matrix ((i, tid) # rest) (matched_tracks, unmatched_dets) =
     (case fst (best_of thr (cost_matrix ! i) unmatched_dets (None, 0)) of
        None \<Rightarrow> greedy thr cost_matrix rest (matched_tracks, unmatched_dets)
      | Some best_match \<Rightarrow>
          greedy thr cost_matrix rest
            (matched_tracks @ [(tid, best_match)], remove1 best_match unmatched_dets))"

definition class_match_thresh :: "tracker \<Rightarrow> string \<Rightarrow> real" where
  "class_match_thresh s cls =
     (case class_params cls of None \<Rightarrow> match_thresh s | Some p \<Rightarrow> cp_match_thresh p)"

definition match_tracks :: "tracker \<Rightarrow> (nat \<times> advanced_track) list \<Rightarrow> bbox list \<Rightarrow> real list
    \<Rightarrow> string \<Rightarrow> py_error + ((nat \<times> nat) list \<times> nat list)" where
  "match_tracks s trs det_bboxes det_scores cls =
     (if trs = [] then Inr ([], [0..<length det_bboxes])
      else
        let thr = class_match_thresh s cls;
            track_ids = map fst trs
        in and_then (cost_rows trs det_bboxes) (\<lambda>cost_matrix.
             Inr (greedy thr cost_matrix (zip [0..<length track_ids] track_ids)
                    ([], [0..<length det_bboxes]))))"

text \<open>The body shared by both track-creating loops of \<^verbatim>\<open>_update_class_tracks\<close>.\<close>

definition new_track :: "tracker \<Rightarrow> bbox \<Rightarrow> real \<Rightarrow> string \<Rightarrow> tracker \<times> tracked_object" where
  "new_track s b sc cls =
     (let tid = track_id_count s;
          t = AdvancedTrack tid b sc (tracker_frame_id s) cls;
          s1 = s\<lparr> track_id_count := track_id_count s + 1,
                  tracks := AList.update tid t (tracks s) \<rparr>
      in (s1, \<lparr> obj_track_id = tid, obj_bbox = get_smoothed_bbox t, obj_score = score t,
                obj_frame_id = tracker_frame_id s1, obj_class = cls,
                obj_confidence = get_average_confidence t \<rparr>))"

fun create_all :: "detection list \<Rightarrow> string \<Rightarrow> tracker \<times> tracked_object list
    \<Rightarrow> tracker \<times> tracked_object list" where
  "create_all [] cls acc = acc"
| "create_all (det # rest) cls (s, tracked_objects) =
     (if det_score det > track_thresh s then
        (case new_track s (det_bbox det) (det_score det) cls of (s1, obj) \<Rightarrow>
           create_all rest cls (s1, tracked_objects @ [obj]))
      else create_all rest cls (s, tracked_objects))"

fun update_matched :: "(nat \<times> nat) list \<Rightarrow> bbox list \<Rightarrow> real list \<Rightarrow> string
    \<Rightarrow> tracker \<times> tracked_object list \<Rightarrow> py_error + (tracker \<times> tracked_object list)" where
  "update_matched [] det_bboxes det_scores cls acc = Inr acc"
| "update_matched ((tid, det_idx) # rest) det_bboxes det_scores cls (s, tracked_objects) =
     (case map_of (tracks s) tid of
        None \<Rightarrow> Inl KeyError
      | Some t0 \<Rightarrow>
          let t = track_update t0 (det_bboxes ! det_idx) (det_scores ! det_idx) (tracker_frame_id s);
              s1 = s\<lparr> tracks := AList.update tid t (tracks s) \<rparr>
          in update_matched rest det_bboxes det_scores cls
               (s1, tracked_objects @
                  [\<lparr> obj_track_id = tid, obj_bbox = get_smoothed_bbox t, obj_score = score t,
                     obj_frame_id = tracker_frame_id s1, obj_class = cls,
                     obj_confidence = get_average_confidence t \<rparr>]))"

fun create_unmatched :: "nat list \<Rightarrow> bbox list \<Rightarrow> real list \<Rightarrow> string
    \<Rightarrow> tracker \<times> tracked_object list \<Rightarrow> tracker \<times> tracked_object list" where
  "create_unmatched [] det_bboxes det_scores cls acc = acc"
| "create_unmatched (det_idx # rest) det_bboxes det_scores cls (s, tracked_objects) =
     (if det_scores ! det_idx > track_thresh s then
        (case new_track s (det_bboxes ! det_idx) (det_scores ! det_idx) cls of (s1, obj) \<Rightarrow>
           create_unmatched rest det_bboxes det_scores cls (s1, tracked_objects @ [obj]))
      else create_unmatched rest det_bboxes det_scores cls (s, tracked_objects))"

definition update_class_tracks :: "tracker \<Rightarrow> detection list \<Rightarrow> string
    \<Rightarrow> py_error + (tracker \<times> tracked_object list)" where
  "update_class_tracks s detections cls =
     (if detections = [] then Inr (s, [])
      else
        let class_tracks = filter (\<lambda>(tid, t). class_name t = cls) (tracks s)
        in if class_tracks = [] then Inr (create_all detections cls (s, []))
           else
             let det_bboxes = map det_bbox detections;
                 det_scores = map det_score detections
             in and_then (match_tracks s class_tracks det_bboxes det_scores cls)
                  (\<lambda>(matched_tracks, unmatched_dets).
                and_then (update_matched matched_tracks det_bboxes det_scores cls (s, []))
                  (\<lambda>acc. Inr (create_unmatched unmatched_dets det_bboxes det_scores cls acc))))"

definition predict_tracks :: "tracker \<Rightarrow> tracked_object list" where
  "predict_tracks s =
     map (\<lambda>(tid, t). \<lparr> obj_track_id = tid, obj_bbox = predict t (tracker_frame_id s),
                        obj_score = score t, obj_frame_id = tracker_frame_id s,
                        obj_class = class_name t, obj_confidence = get_average_confidence t \<rparr>)
       (filter (\<lambda>(tid, t). is_active t) (tracks s))"

fun remove_tracks :: "nat list \<Rightarrow> tracker \<Rightarrow> tracker" where
  "remove_tracks [] s = s"
| "remove_tracks (tid # rest) s =
     (if tid \<notin> removed_tracks s then
        remove_tracks rest (s\<lparr> removed_tracks := insert tid (removed_tracks s),
                                tracks := AList.delete tid (tracks s) \<rparr>)
      else remove_tracks rest s)"

definition handle_lost_tracks :: "tracker \<Rightarrow> tracker" where
  "handle_lost_tracks s =
     (let tracks_to_remove =
            map fst (filter (\<lambda>(tid, t). time_since_update t > max_time_lost s) (tracks s))
      in remove_tracks tracks_to_remove s)"

definition tracker_update :: "tracker \<Rightarrow> detection list
    \<Rightarrow> py_error + (tracker \<times> tracked_object list)" where
  "tracker_update s detections =
     (let s1 = s\<lparr> tracker_frame_id := tracker_frame_id s + 1,
                  tracks := map (\<lambda>(tid, t).
                               (tid, t\<lparr> time_since_update := time_since_update t + 1 \<rparr>))
                             (tracks s) \<rparr>
      in if detections = [] then Inr (s1, predict_tracks s1)
         else
           let person_detections = filter (\<lambda>d. det_class d = ''person'') detections;
               ball_detections = filter (\<lambda>d. det_class d = ''ball'') detections
           in and_then (if person_detections \<noteq> []
                        then update_class_tracks s1 person_detections ''person''
                        else Inr (s1, []))
                (\<lambda>(s2, person_tracks).
              and_then (if ball_detections \<noteq> []
                        then update_class_tracks s2 ball_detections ''ball''
                        else Inr (s2, []))
                (\<lambda>(s3, ball_tracks).
              Inr (handle_lost_tracks s3, person_tracks @ ball_tracks))))"

subsection \<open>\<^verbatim>\<open>BallPossessionAnalyzer\<close>\<close>

type_synonym point = "real \<times> real"

text \<open>
  A tracked object as \<^verbatim>\<open>update_tracks\<close> reads it: \<^verbatim>\<open>obj.get('class')\<close>, \<^verbatim>\<open>obj['bbox']\<close>,
  \<^verbatim>\<open>obj['score']\<close> and \<^verbatim>\<open>obj.get('track_id', -1)\<close>. A missing class behaves like any
  class other than \<^verbatim>\<open>ball\<close> and \<^verbatim>\<open>person\<close>.
\<close>

record analyzer_object =
  in_class :: string
  in_bbox :: bbox
  in_score :: real
  in_track_id :: "int option"

text \<open>The entries of \<^verbatim>\<open>ball_tracks\<close> and \<^verbatim>\<open>player_tracks\<close>.\<close>

record track_sample =
  sample_frame_id :: int
  sample_bbox :: bbox
  sample_center :: point
  sample_track_id :: int
  sample_confidence :: real

record possession =
  player_id :: int
  start_frame :: int
  end_frame :: "int option"
  duration :: int
  team :: string
  positions :: "point list"

record pass_event =
  from_player :: int
  to_player :: int
  from_team :: string
  to_team :: string
  pass_frame_id :: int
  distance :: real
  successful :: bool

text \<open>
  \<^verbatim>\<open>team_possession_time\<close> is a \<^verbatim>\<open>defaultdict(float)\<close> that is only ever indexed: a total
  function with value 0 on the keys never written.
\<close>

record analyzer =
  fps :: real
  possession_threshold :: real
  frame_threshold :: int
  ball_tracks :: "track_sample list"
  player_tracks :: "track_sample list"
  possession_events :: "possession list"
  current_possession :: "possession option"
  possession_history :: "possession list"
  team_possession_time :: "string \<Rightarrow> real"
  total_possession_time :: real
  pass_events :: "pass_event list"
  pass_threshold_distance :: real
  pass_threshold_frames :: int

definition BallPossessionAnalyzer :: "real \<Rightarrow> real \<Rightarrow> analyzer" where
  "BallPossessionAnalyzer fps0 threshold =
     \<lparr> fps = fps0, possession_threshold = threshold,
       frame_threshold = py_int (threshold * fps0),
       ball_tracks = [], player_tracks = [], possession_events = [],
       current_possession = None, possession_history = [],
       team_possession_time = (\<lambda>k. 0), total_possession_time = 0,
       pass_events = [], pass_threshold_distance = 50, pass_threshold_frames = 5 \<rparr>"

definition get_center :: "bbox \<Rightarrow> point" where
  "get_center b = (case b of (x, y, w, h) \<Rightarrow> (x + w / 2, y + h / 2))"

definition calculate_distance :: "point \<Rightarrow> point \<Rightarrow> real" where
  "calculate_distance pos1 pos2 = sqrt ((fst pos1 - fst pos2)\<^sup>2 + (snd pos1 - snd pos2)\<^sup>2)"

definition get_player_team :: "analyzer \<Rightarrow> int \<Rightarrow> string" where
  "get_player_team s pid =
     (let player_positions =
            map sample_center (filter (\<lambda>p. sample_track_id p = pid) (player_tracks s))
      in if player_positions = [] then ''unknown''
         else
           let avg_x = mean (map fst player_positions);
               field_width = 1000
           in if avg_x < field_width / 2 then ''team_a'' else ''team_b'')"

definition start_possession :: "analyzer \<Rightarrow> track_sample \<Rightarrow> int \<Rightarrow> analyzer" where
  "start_possession s player fid =
     s\<lparr> current_possession :=
          Some \<lparr> player_id = sample_track_id player, start_frame = fid, end_frame = None,
                 duration = 0, team = get_player_team s (sample_track_id player),
                 positions = [sample_center player] \<rparr> \<rparr>"

definition update_possession :: "analyzer \<Rightarrow> int \<Rightarrow> analyzer" where
  "update_possession s fid =
     (case current_possession s of
        None \<Rightarrow> s
      | Some cur \<Rightarrow>
          (case find (\<lambda>p. sample_frame_id p = fid \<and> sample_track_id p = player_id cur)
                  (player_tracks s) of
             None \<Rightarrow> s
           | Some player \<Rightarrow>
               s\<lparr> current_possession :=
                    Some (cur\<lparr> positions := positions cur @ [sample_center player],
                               duration := fid - start_frame cur \<rparr>) \<rparr>))"

text \<open>
  \<^verbatim>\<open>_end_possession\<close>. The span is appended to the log before the division by \<^verbatim>\<open>fps\<close>,
  which raises when \<^verbatim>\<open>fps\<close> is zero.
\<close>

definition end_possession :: "analyzer \<Rightarrow> int \<Rightarrow> py_error + analyzer" where
  "end_possession s fid =
     (case current_possession s of
        None \<Rightarrow> Inr s
      | Some cur0 \<Rightarrow>
          let cur = cur0\<lparr> end_frame := Some fid, duration := fid - start_frame cur0 \<rparr>
          in if duration cur \<ge> frame_threshold s then
               let s1 = s\<lparr> possession_events := possession_events s @ [cur] \<rparr>
               in and_then (truediv (real_of_int (duration cur)) (fps s1)) (\<lambda>possession_time.
                    Inr (s1\<lparr> team_possession_time :=
                                (team_possession_time s1)
                                  (team cur := team_possession_time s1 (team cur) + possession_time),
                              total_possession_time := total_possession_time s1 + possession_time,
                              current_possession := None \<rparr>))
             else Inr (s\<lparr> current_possession := None \<rparr>))"

text \<open>
  The search for the closest player of the current frame; \<open>None\<close> stands for
  \<^verbatim>\<open>closest_player = None\<close> with \<^verbatim>\<open>min_distance = inf\<close>.
\<close>

fun find_closest :: "point \<Rightarrow> int \<Rightarrow> track_sample list \<Rightarrow> (track_sample \<times> real) option
    \<Rightarrow> (track_sample \<times> real) option" where
  "find_closest ball_center fid [] acc = acc"
| "find_closest ball_center fid (player # rest) acc =
     (if sample_frame_id player = fid then
        let dist = calculate_distance ball_center (sample_center player)
        in (case acc of
              None \<Rightarrow> find_closest ball_center fid rest (Some (player, dist))
            | Some (closest_player, min_distance) \<Rightarrow>
                if dist < min_distance
                then find_closest ball_center fid rest (Some (player, dist))
                else find_closest ball_center fid rest acc)
      else find_closest ball_center fid rest acc)"

definition analyze_possession :: "analyzer \<Rightarrow> int \<Rightarrow> py_error + analyzer" where
  "analyze_possession s fid =
     (if ball_tracks s = [] \<or> player_tracks s = [] then Inr s
      else
        let current_ball = last (ball_tracks s);
            ball_center = sample_center current_ball;
            closest = find_closest ball_center fid (player_tracks s) None;
            possession_distance_threshold = 80;
            close_enough = (case closest of
                              None \<Rightarrow> False
                            | Some (closest_player, min_distance) \<Rightarrow>
                                min_distance < possession_distance_threshold)
        in if close_enough then
             (case closest of
                None \<Rightarrow> Inr s
              | Some (closest_player, min_distance) \<Rightarrow>
                  if current_possession s = None \<or>
                     map_option player_id (current_possession s)
                       \<noteq> Some (sample_track_id closest_player)
                  then and_then (if current_possession s \<noteq> None then end_possession s fid
                                 else Inr s)
                         (\<lambda>s1. Inr (start_possession s1 closest_player fid))
                  else Inr (update_possession s fid))
           else if current_possession s \<noteq> None then end_possession s fid
           else Inr s)"

text \<open>
  \<^verbatim>\<open>_detect_passes\<close>. Reading \<^verbatim>\<open>end_frame\<close> of a span that has none, or the first or last
  of an empty position list, raises.
\<close>

definition end_frame_of :: "possession \<Rightarrow> py_error + int" where
  "end_frame_of p = (case end_frame p of None \<Rightarrow> Inl TypeError | Some e \<Rightarrow> Inr e)"

fun recent_possessions :: "int \<Rightarrow> int \<Rightarrow> possession list \<Rightarrow> py_error + possession list" where
  "recent_possessions fid window [] = Inr []"
| "recent_possessions fid window (p # rest) =
     and_then (end_frame_of p) (\<lambda>e.
     and_then (recent_possessions fid window rest) (\<lambda>r.
       Inr (if fid - e < window then p # r else r)))"

definition pass_between :: "analyzer \<Rightarrow> possession \<Rightarrow> possession \<Rightarrow> py_error + analyzer" where
  "pass_between s current next =
     and_then (end_frame_of current) (\<lambda>current_end.
       let time_between = start_frame next - current_end
       in if time_between \<le> pass_threshold_frames s then
            (if positions current = [] \<or> positions next = [] then Inl IndexError
             else
               let end_pos = last (positions current);
                   start_pos = hd (positions next);
                   dist = calculate_distance end_pos start_pos
               in if dist \<le> pass_threshold_distance s then
                    Inr (s\<lparr> pass_events := pass_events s @
                             [\<lparr> from_player = player_id current, to_player = player_id next,
                                from_team = team current, to_team = team next,
                                pass_frame_id = current_end, distance = dist,
                                successful = True \<rparr>] \<rparr>)
                  else Inr s)
          else Inr s)"

fun scan_pairs :: "possession list \<Rightarrow> analyzer \<Rightarrow> py_error + analyzer" where
  "scan_pairs (current # next # rest) s =
     and_then (pass_between s current next) (\<lambda>s1. scan_pairs (next # rest) s1)"
| "scan_pairs recent s = Inr s"

definition detect_passes :: "analyzer \<Rightarrow> int \<Rightarrow> py_error + analyzer" where
  "detect_passes s fid =
     (if length (possession_events s) < 2 then Inr s
      else and_then (recent_possessions fid (pass_threshold_frames s) (possession_events s))
             (\<lambda>recent. scan_pairs recent s))"

text \<open>Python's \<^verbatim>\<open>max(xs, key=f)\<close> on a non-empty list: the first element of largest key.\<close>

fun max_by :: "('a \<Rightarrow> real) \<Rightarrow> 'a \<Rightarrow> 'a list \<Rightarrow> 'a" where
  "max_by f best [] = best"
| "max_by f best (x # xs) = (if f x > f best then max_by f x xs else max_by f best xs)"

definition to_sample :: "analyzer_object \<Rightarrow> int \<Rightarrow> track_sample" where
  "to_sample obj fid =
     \<lparr> sample_frame_id = fid, sample_bbox = in_bbox obj,
       sample_center = get_center (in_bbox obj),
       sample_track_id = (case in_track_id obj of None \<Rightarrow> - 1 | Some i \<Rightarrow> i),
       sample_confidence = in_score obj \<rparr>"

definition update_tracks :: "analyzer \<Rightarrow> analyzer_object list \<Rightarrow> int \<Rightarrow> py_error + analyzer" where
  "update_tracks s tracked_objects fid =
     (let balls = filter (\<lambda>obj. in_class obj = ''ball'') tracked_objects;
          players = filter (\<lambda>obj. in_class obj = ''person'') tracked_objects;
          s1 = (case balls of
                  [] \<Rightarrow> s
                | b # bs \<Rightarrow>
                    let best_ball = max_by in_score b bs
                    in s\<lparr> ball_tracks := ball_tracks s @ [to_sample best_ball fid] \<rparr>);
          s2 = s1\<lparr> player_tracks := player_tracks s1 @ map (\<lambda>player. to_sample player fid) players \<rparr>
      in and_then (analyze_possession s2 fid) (\<lambda>s3. detect_passes s3 fid))"

text \<open>The caller's loop: one \<^verbatim>\<open>update_tracks\<close> call per frame.\<close>

fun analyzer_run :: "analyzer \<Rightarrow> (analyzer_object list \<times> int) list \<Rightarrow> py_error + analyzer" where
  "analyzer_run s [] = Inr s"
| "analyzer_run s ((tracked_objects, fid) # rest) =
     and_then (update_tracks s tracked_objects fid) (\<lambda>s1. analyzer_run s1 rest)"

definition reset :: "analyzer \<Rightarrow> analyzer" where
  "reset s = s\<lparr> ball_tracks := [], player_tracks := [], possession_events := [],
                current_possession := None, possession_history := [],
                team_possession_time := (\<lambda>k. 0), total_possession_time := 0,
                pass_events := [] \<rparr>"

subsubsection \<open>Statistics\<close>

record possession_stats =
  stat_team_a_possession :: real
  stat_team_b_possession :: real
  stat_team_a_percentage :: real
  stat_team_b_percentage :: real
  stat_total_possession_time :: real
  stat_possession_events :: nat
  stat_passes :: nat
  stat_current_possession :: "possession option"

text \<open>
  The \<^verbatim>\<open>recent_frames\<close> dictionary of \<^verbatim>\<open>get_possession_stats\<close>: per frame id, the number
  of recent player samples on each side.
\<close>

fun count_frames :: "analyzer \<Rightarrow> track_sample list \<Rightarrow> (int \<times> nat \<times> nat) list
    \<Rightarrow> (int \<times> nat \<times> nat) list" where
  "count_frames s [] recent_frames = recent_frames"
| "count_frames s (player # rest) recent_frames =
     (let fid = sample_frame_id player;
          rf = (if map_of recent_frames fid = None
                then AList.update fid (0, 0) recent_frames else recent_frames);
          tm = get_player_team s (sample_track_id player);
          (a, b) = (case map_of rf fid of None \<Rightarrow> (0, 0) | Some c \<Rightarrow> c)
      in count_frames s rest
           (if tm = ''team_a'' then AList.update fid (a + 1, b) rf
            else if tm = ''team_b'' then AList.update fid (a, b + 1) rf
            else rf))"

fun activity :: "(int \<times> nat \<times> nat) list \<Rightarrow> real \<times> real \<times> nat \<Rightarrow> real \<times> real \<times> nat" where
  "activity [] acc = acc"
| "activity ((fid, a, b) # rest) (team_a_activity, team_b_activity, total_frames) =
     (let total_players = a + b
      in if total_players > 0 then
           activity rest (team_a_activity + real a / real total_players,
                          team_b_activity + real b / real total_players,
                          total_frames + 1)
         else activity rest (team_a_activity, team_b_activity, total_frames))"

definition fallback_possession_stats :: possession_stats where
  "fallback_possession_stats =
     \<lparr> stat_team_a_possession = 15, stat_team_b_possession = 15,
       stat_team_a_percentage = 50, stat_team_b_percentage = 50,
       stat_total_possession_time = 30, stat_possession_events = 0, stat_passes = 0,
       stat_current_possession = None \<rparr>"

definition get_possession_stats :: "analyzer \<Rightarrow> possession_stats" where
  "get_possession_stats s =
     (if total_possession_time s > 0 then
        let team_a_time = team_possession_time s ''team_a'';
            team_b_time = team_possession_time s ''team_b''
        in \<lparr> stat_team_a_possession = team_a_time, stat_team_b_possession = team_b_time,
             stat_team_a_percentage = (team_a_time / total_possession_time s) * 100,
             stat_team_b_percentage = (team_b_time / total_possession_time s) * 100,
             stat_total_possession_time = total_possession_time s,
             stat_possession_events = length (possession_events s),
             stat_passes = length (pass_events s),
             stat_current_possession = current_possession s \<rparr>
      else if length (player_tracks s) > 0 then
        (case activity
                (count_frames s (drop (length (player_tracks s) - 100) (player_tracks s)) [])
                (0, 0, 0) of
           (team_a_activity, team_b_activity, total_frames) \<Rightarrow>
             if total_frames > 0 then
               let team_a_ratio = team_a_activity / real total_frames;
                   team_b_ratio = team_b_activity / real total_frames;
                   total_time = 30
               in \<lparr> stat_team_a_possession = total_time * team_a_ratio,
                    stat_team_b_possession = total_time * team_b_ratio,
                    stat_team_a_percentage = team_a_ratio * 100,
                    stat_team_b_percentage = team_b_ratio * 100,
                    stat_total_possession_time = total_time,
                    stat_possession_events = length (possession_events s),
                    stat_passes = length (pass_events s),
                    stat_current_possession = current_possession s \<rparr>
             else fallback_possession_stats)
      else fallback_possession_stats)"

text \<open>
  The synthetic branch of \<^verbatim>\<open>get_pass_stats\<close> reads the clock, draws random distances and
  iterates over a \<^verbatim>\<open>set\<close>; all three are taken from an environment.
\<close>

record environment =
  env_time :: "nat \<Rightarrow> real"
  env_uniform :: "nat \<Rightarrow> real"
  env_set_order :: "int list \<Rightarrow> int list"

record synthetic_pass =
  syn_from_player :: int
  syn_to_player :: int
  syn_successful :: bool
  syn_timestamp :: real
  syn_distance :: real
  syn_team :: string

datatype recent_pass = Logged pass_event | Synthetic synthetic_pass

record pass_stats =
  stat_total_passes :: int
  stat_successful_passes :: int
  stat_pass_success_rate :: real
  stat_team_a_passes :: int
  stat_team_b_passes :: int
  stat_recent_passes :: "recent_pass list"

definition fallback_pass_stats :: pass_stats where
  "fallback_pass_stats =
     \<lparr> stat_total_passes = 8, stat_successful_passes = 6, stat_pass_success_rate = 75,
       stat_team_a_passes = 4, stat_team_b_passes = 4, stat_recent_passes = [] \<rparr>"

definition get_pass_stats :: "environment \<Rightarrow> analyzer \<Rightarrow> pass_stats" where
  "get_pass_stats env s =
     (if pass_events s \<noteq> [] then
        let n = int (length (pass_events s));
            successful_passes = int (length (filter successful (pass_events s)));
            team_a_passes =
              int (length (filter (\<lambda>p. from_team p = ''team_a'') (pass_events s)));
            team_b_passes =
              int (length (filter (\<lambda>p. from_team p = ''team_b'') (pass_events s)))
        in \<lparr> stat_total_passes = n, stat_successful_passes = successful_passes,
             stat_pass_success_rate = (real_of_int successful_passes / real_of_int n) * 100,
             stat_team_a_passes = team_a_passes, stat_team_b_passes = team_b_passes,
             stat_recent_passes =
               map Logged (if length (pass_events s) \<ge> 10
                           then drop (length (pass_events s) - 10) (pass_events s)
                           else pass_events s) \<rparr>
      else if length (player_tracks s) > 0 then
        let unique_players = env_set_order env (remdups (map sample_track_id (player_tracks s)));
            num_players = length unique_players
        in if num_players \<ge> 2 then
             let base_passes = max 5 (int num_players * 2);
                 successful_passes = py_int (real_of_int base_passes * 0.85);
                 team_a_passes = py_int (real_of_int base_passes * 0.45);
                 team_b_passes = base_passes - team_a_passes
             in \<lparr> stat_total_passes = base_passes, stat_successful_passes = successful_passes,
                  stat_pass_success_rate =
                    (real_of_int successful_passes / real_of_int base_passes) * 100,
                  stat_team_a_passes = team_a_passes, stat_team_b_passes = team_b_passes,
                  stat_recent_passes =
                    map (\<lambda>i. Synthetic
                          \<lparr> syn_from_player = unique_players ! (i mod num_players),
                            syn_to_player = unique_players ! ((i + 1) mod num_players),
                            syn_successful = (int i < successful_passes),
                            syn_timestamp = env_time env i - real i * 2,
                            syn_distance = env_uniform env i,
                            syn_team = (if i mod 2 = 0 then ''team_a'' else ''team_b'') \<rparr>)
                      [0..<nat (min 5 base_passes)] \<rparr>
           else fallback_pass_stats
      else fallback_pass_stats)"

subsection \<open>Derived notions\<close>

text \<open>
  Definitions used to state and prove the properties: the value \<^verbatim>\<open>compute_iou\<close> returns,
  the greedy assignment in the specification's words, the tracker's reachable states and
  their invariant, and the effect of one association round on the track table.
\<close>

definition degenerate :: "bbox \<Rightarrow> bool" where
  "degenerate b = (case b of (x, y, w, h) \<Rightarrow> w \<le> 0 \<or> h \<le> 0)"

definition iou_value :: "bbox \<Rightarrow> bbox \<Rightarrow> real" where
  "iou_value a b = (if union_area a b > 0 then inter_area a b / union_area a b else 0)"

fun pick_best :: "(nat \<Rightarrow> real) \<Rightarrow> nat list \<Rightarrow> nat option" where
  "pick_best f [] = None"
| "pick_best f (j # js) =
     (case pick_best f js of
        None \<Rightarrow> Some j
      | Some k \<Rightarrow> if f k > f j then Some k else Some j)"

fun assign_greedily :: "real \<Rightarrow> (nat \<times> (nat \<Rightarrow> real)) list \<Rightarrow> nat list
    \<Rightarrow> (nat \<times> nat) list \<times> nat list" where
  "assign_greedily thr [] pool = ([], pool)"
| "assign_greedily thr ((tid, iou) # rest) pool =
     (case pick_best iou pool of
        None \<Rightarrow> assign_greedily thr rest pool
      | Some j \<Rightarrow>
          if iou j > thr
          then (case assign_greedily thr rest (remove1 j pool) of (m, u) \<Rightarrow> ((tid, j) # m, u))
          else assign_greedily thr rest pool)"

definition track_ious :: "bbox list \<Rightarrow> nat \<times> advanced_track \<Rightarrow> nat \<times> (nat \<Rightarrow> real)" where
  "track_ious det_bboxes = (\<lambda>(tid, t). (tid, \<lambda>j. iou_value (get_smoothed_bbox t) (det_bboxes ! j)))"

definition keys_of :: "tracker \<Rightarrow> nat list" where
  "keys_of s = map fst (tracks s)"

definition tracker_inv :: "tracker \<Rightarrow> bool" where
  "tracker_inv s \<longleftrightarrow>
     sorted_wrt (<) (keys_of s) \<and>
     (\<forall>k\<in>set (keys_of s). k < track_id_count s) \<and>
     (\<forall>k\<in>removed_tracks s. k < track_id_count s) \<and>
     set (keys_of s) \<inter> removed_tracks s = {} \<and>
     (\<forall>(k, t)\<in>set (tracks s). 0 \<le> time_since_update t)"

definition same_config :: "tracker \<Rightarrow> tracker \<Rightarrow> bool" where
  "same_config s s' \<longleftrightarrow>
     track_thresh s' = track_thresh s \<and> match_thresh s' = match_thresh s \<and>
     max_time_lost s' = max_time_lost s \<and> min_track_length s' = min_track_length s \<and>
     tracker_frame_id s' = tracker_frame_id s \<and> lost_tracks s' = lost_tracks s \<and>
     removed_tracks s' = removed_tracks s"

definition round_rel :: "detection set \<Rightarrow> string set \<Rightarrow> tracker \<Rightarrow> tracker \<Rightarrow> nat list \<Rightarrow> bool" where
  "round_rel D C s s' ids \<longleftrightarrow>
     same_config s s' \<and> track_id_count s \<le> track_id_count s' \<and>
     keys_of s' = keys_of s @ [track_id_count s..<track_id_count s'] \<and>
     distinct ids \<and> set ids \<subseteq> set (keys_of s') \<and>
     (\<forall>k. track_id_count s \<le> k \<and> k < track_id_count s' \<longrightarrow> k \<in> set ids) \<and>
     (\<forall>k t. map_of (tracks s) k = Some t \<and> k \<notin> set ids \<longrightarrow> map_of (tracks s') k = Some t) \<and>
     (\<forall>k t. map_of (tracks s) k = Some t \<and> k \<in> set ids \<longrightarrow>
        class_name t \<in> C \<and>
        (\<exists>d\<in>D. map_of (tracks s') k =
           Some (track_update t (det_bbox d) (det_score d) (tracker_frame_id s)))) \<and>
     (\<forall>k. track_id_count s \<le> k \<and> k < track_id_count s' \<longrightarrow>
        (\<exists>d\<in>D. \<exists>c\<in>C. map_of (tracks s') k =
           Some (AdvancedTrack k (det_bbox d) (det_score d) (tracker_frame_id s) c)))"

definition bump :: "advanced_track \<Rightarrow> advanced_track" where
  "bump t = t\<lparr> time_since_update := time_since_update t + 1 \<rparr>"

definition tick :: "tracker \<Rightarrow> tracker" where
  "tick s = s\<lparr> tracker_frame_id := tracker_frame_id s + 1,
               tracks := map (\<lambda>(tid, t). (tid, bump t)) (tracks s) \<rparr>"

inductive reachable :: "tracker \<Rightarrow> tracker \<Rightarrow> bool" for s0 :: tracker where
  start: "reachable s0 s0"
| step: "reachable s0 s \<Longrightarrow> tracker_update s ds = Inr (s', out) \<Longrightarrow> reachable s0 s'"

text \<open>Sample detections used where a theorem is exercised on concrete input.\<close>

definition person_det :: "real \<Rightarrow> real \<Rightarrow> real \<Rightarrow> detection" where
  "person_det x y sc = \<lparr> det_bbox = (x, y, 10, 10), det_score = sc, det_class = ''person'' \<rparr>"

text \<open>The caller's per-frame loop: one \<^verbatim>\<open>update\<close> call per frame, on the same tracker.\<close>

fun tracker_run :: "tracker \<Rightarrow> detection list list \<Rightarrow> py_error + tracker" where
  "tracker_run s [] = Inr s"
| "tracker_run s (detections # rest) =
     and_then (tracker_update s detections) (\<lambda>(s', tracked_objects). tracker_run s' rest)"

text \<open>The per-class match threshold as the specification words it.\<close>

definition class_threshold :: "real \<Rightarrow> string \<Rightarrow> real" where
  "class_threshold default_thresh cls =
     (if cls = ''person'' then 0.6 else if cls = ''ball'' then 0.8 else default_thresh)"

definition ball_det :: "real \<Rightarrow> real \<Rightarrow> real \<Rightarrow> detection" where
  "ball_det x y sc = \<lparr> det_bbox = (x, y, 4, 4), det_score = sc, det_class = ''ball'' \<rparr>"

text \<open>Sample tracked objects for the analyzer, and proof-side notions about it.\<close>

definition player_obj :: "int \<Rightarrow> real \<Rightarrow> real \<Rightarrow> analyzer_object" where
  "player_obj tid x y =
     \<lparr> in_class = ''person'', in_bbox = (x, y, 20, 20), in_score = 9 / 10, in_track_id = Some tid \<rparr>"

definition ball_obj :: "real \<Rightarrow> real \<Rightarrow> analyzer_object" where
  "ball_obj x y =
     \<lparr> in_class = ''ball'', in_bbox = (x, y, 4, 4), in_score = 8 / 10, in_track_id = Some 9 \<rparr>"

text \<open>Frames \<open>a, a + 1, \<dots>\<close>, one per object list.\<close>

fun frames_from :: "int \<Rightarrow> analyzer_object list list \<Rightarrow> (analyzer_object list \<times> int) list" where
  "frames_from a [] = []"
| "frames_from a (objs # rest) = (objs, a) # frames_from (a + 1) rest"

definition only_passes_differ :: "analyzer \<Rightarrow> analyzer \<Rightarrow> bool" where
  "only_passes_differ s s' \<longleftrightarrow> s' = s\<lparr> pass_events := pass_events s' \<rparr>"

definition closed_span :: "possession \<Rightarrow> int \<Rightarrow> possession" where
  "closed_span cur fid = cur\<lparr> end_frame := Some fid, duration := fid - start_frame cur \<rparr>"

subsection \<open>Facts about the tracker\<close>

lemma compute_iou_value: "compute_iou a b = Inr (iou_value a b)"
  by (simp add: compute_iou_def iou_value_def truediv_def)

lemma inter_area_nonneg: "0 \<le> inter_area a b"
  by (cases a; cases b) (simp add: inter_area_def Let_def)

lemma inter_area_degenerate: "degenerate a \<or> degenerate b \<Longrightarrow> inter_area a b = 0"
  by (cases a; cases b) (auto simp add: inter_area_def degenerate_def Let_def max_def min_def)

lemma inter_le_union:
  assumes "0 < inter_area a b" shows "inter_area a b \<le> union_area a b"
proof -
  obtain x1 y1 w1 h1 where a: "a = (x1, y1, w1, h1)" by (cases a) auto
  obtain x2 y2 w2 h2 where b: "b = (x2, y2, w2, h2)" by (cases b) auto
  define dx where "dx = min (x1 + w1) (x2 + w2) - max x1 x2"
  define dy where "dy = min (y1 + h1) (y2 + h2) - max y1 y2"
  have I: "inter_area a b = max 0 dx * max 0 dy"
    by (simp add: a b inter_area_def Let_def dx_def dy_def)
  from assms I have pos: "0 < dx" "0 < dy"
    by (auto simp: max_def zero_less_mult_iff split: if_splits)
  have "dx \<le> w1" "dx \<le> w2" "dy \<le> h1" "dy \<le> h2"
    unfolding dx_def dy_def by (auto simp: min_def max_def)
  with pos have "dx * dy \<le> w1 * h1" "dx * dy \<le> w2 * h2"
    by (auto intro!: mult_mono)
  moreover have "inter_area a b = dx * dy" using I pos by simp
  moreover have "union_area a b = w1 * h1 + w2 * h2 - inter_area a b"
    by (simp add: a b union_area_def Let_def)
  ultimately show ?thesis by linarith
qed

lemma iou_value_bounds: "0 \<le> iou_value a b \<and> iou_value a b \<le> 1"
proof (cases "0 < inter_area a b")
  case True
  from inter_le_union[OF True] True show ?thesis
    by (auto simp: iou_value_def divide_le_eq_1)
next
  case False
  with inter_area_nonneg[of a b] have "inter_area a b = 0" by linarith
  then show ?thesis by (simp add: iou_value_def)
qed

lemma iou_value_degenerate: "degenerate a \<or> degenerate b \<Longrightarrow> iou_value a b = 0"
  by (simp add: iou_value_def inter_area_degenerate)

lemma cost_row_value: "cost_row sb ds = Inr (map (\<lambda>d. 1 - iou_value sb d) ds)"
  by (induction ds) (simp_all add: and_then_def compute_iou_value)

lemma cost_rows_value:
  "cost_rows trs ds =
     Inr (map (\<lambda>(tid, t). map (\<lambda>d. 1 - iou_value (get_smoothed_bbox t) d) ds) trs)"
  by (induction trs) (auto simp add: and_then_def cost_row_value)

lemma pick_best_None: "pick_best f js = None \<longleftrightarrow> js = []"
  by (induction js) (auto split: option.splits)

lemma pick_best_max:
  "pick_best f js = Some k \<Longrightarrow> k \<in> set js \<and> (\<forall>j\<in>set js. f j \<le> f k)"
proof (induction js arbitrary: k)
  case Nil
  then show ?case by simp
next
  case (Cons a js)
  show ?case
  proof (cases "pick_best f js")
    case None
    then have "js = []" by (simp add: pick_best_None)
    with Cons.prems None show ?thesis by simp
  next
    case (Some m)
    from Cons.IH[OF Some] have m: "m \<in> set js" "\<forall>j\<in>set js. f j \<le> f m" by auto
    show ?thesis
    proof (cases "f m > f a")
      case True
      with Cons.prems Some have "k = m" by simp
      with m True show ?thesis by auto
    next
      case False
      with Cons.prems Some have "k = a" by simp
      with m False show ?thesis by fastforce
    qed
  qed
qed

lemma best_of_pick:
  assumes "0 \<le> thr" "thr \<le> bi \<or> bm = None \<and> bi = 0"
  shows "best_of thr row js (bm, bi) =
     (case pick_best (\<lambda>j. 1 - row ! j) js of
        None \<Rightarrow> (bm, bi)
      | Some k \<Rightarrow> if 1 - row ! k > thr \<and> 1 - row ! k > bi then (Some k, 1 - row ! k) else (bm, bi))"
  using assms
proof (induction js arbitrary: bm bi)
  case Nil
  then show ?case by simp
next
  case (Cons a js)
  let ?f = "\<lambda>j. 1 - row ! j"
  show ?case
  proof (cases "pick_best ?f js")
    case None
    then have "js = []" by (simp add: pick_best_None)
    then show ?thesis by (simp add: Let_def)
  next
    case (Some m)
    from pick_best_max[OF Some] have m: "m \<in> set js" "\<forall>j\<in>set js. ?f j \<le> ?f m" by auto
    show ?thesis
    proof (cases "?f a > thr \<and> ?f a > bi")
      case True
      then have "best_of thr row (a # js) (bm, bi) = best_of thr row js (Some a, ?f a)"
        by (simp add: Let_def)
      also have "\<dots> = (if ?f m > thr \<and> ?f m > ?f a then (Some m, ?f m) else (Some a, ?f a))"
        using Cons.IH[of "?f a" "Some a"] Cons.prems True Some by simp
      finally show ?thesis using True Some by auto
    next
      case False
      then have "best_of thr row (a # js) (bm, bi) = best_of thr row js (bm, bi)"
        by (auto simp add: Let_def)
      also have "\<dots> = (if ?f m > thr \<and> ?f m > bi then (Some m, ?f m) else (bm, bi))"
        using Cons.IH[of bi bm] Cons.prems Some by simp
      finally show ?thesis using False Some Cons.prems by auto
    qed
  qed
qed

lemma best_of_start:
  assumes "0 \<le> thr"
  shows "fst (best_of thr row js (None, 0)) =
     (case pick_best (\<lambda>j. 1 - row ! j) js of
        None \<Rightarrow> None
      | Some k \<Rightarrow> if 1 - row ! k > thr then Some k else None)"
  using best_of_pick[OF assms, of 0 None row js] assms
  by (auto split: option.splits)

lemma pick_best_cong:
  "(\<And>j. j \<in> set js \<Longrightarrow> f j = g j) \<Longrightarrow> pick_best f js = pick_best g js"
proof (induction js)
  case Nil
  then show ?case by simp
next
  case (Cons a js)
  then have IH: "pick_best f js = pick_best g js" by simp
  show ?case
  proof (cases "pick_best g js")
    case None
    with IH show ?thesis by simp
  next
    case (Some k)
    then have "k \<in> set js" using pick_best_max by blast
    with Cons.prems have "f k = g k" "f a = g a" by simp_all
    with IH Some show ?thesis by simp
  qed
qed

lemma greedy_assign:
  assumes "0 \<le> thr" "set pool \<subseteq> {..<length ds}"
    and "\<forall>i<length trs. cm ! (k + i) = map (\<lambda>d. 1 - iou_value (get_smoothed_bbox (snd (trs ! i))) d) ds"
  shows "greedy thr cm (zip [k..<k + length trs] (map fst trs)) (m, pool) =
     (case assign_greedily thr (map (track_ious ds) trs) pool of (m', u) \<Rightarrow> (m @ m', u))"
  using assms
proof (induction trs arbitrary: k m pool)
  case Nil
  then show ?case by simp
next
  case (Cons p trs)
  obtain tid t where p: "p = (tid, t)" by (cases p)
  let ?row = "map (\<lambda>d. 1 - iou_value (get_smoothed_bbox t) d) ds"
  let ?f = "\<lambda>j. iou_value (get_smoothed_bbox t) (ds ! j)"
  from Cons.prems(3)[rule_format, of 0] p have row: "cm ! k = ?row" by simp
  have rest: "\<forall>i<length trs. cm ! (Suc k + i) =
      map (\<lambda>d. 1 - iou_value (get_smoothed_bbox (snd (trs ! i))) d) ds"
  proof (intro allI impI)
    fix i assume "i < length trs"
    with Cons.prems(3)[rule_format, of "Suc i"] show "cm ! (Suc k + i) =
      map (\<lambda>d. 1 - iou_value (get_smoothed_bbox (snd (trs ! i))) d) ds" by simp
  qed
  have val: "\<And>j. j \<in> set pool \<Longrightarrow> 1 - ?row ! j = ?f j"
    using Cons.prems(2) by auto
  have pb: "pick_best (\<lambda>j. 1 - ?row ! j) pool = pick_best ?f pool"
    by (rule pick_best_cong) (rule val)
  have zip: "zip [k..<k + length (p # trs)] (map fst (p # trs)) =
      (k, tid) # zip [Suc k..<Suc k + length trs] (map fst trs)"
  proof -
    have "[k..<k + length (p # trs)] = k # [Suc k..<Suc k + length trs]"
      by (subst upt_conv_Cons) simp_all
    then show ?thesis by (simp add: p)
  qed
  show ?case
  proof (cases "pick_best ?f pool")
    case None
    then show ?thesis
      using Cons.IH[OF Cons.prems(1) Cons.prems(2) rest, of m] zip row pb
      by (simp add: best_of_start[OF Cons.prems(1)] p track_ious_def)
  next
    case (Some j)
    then have jp: "j \<in> set pool" using pick_best_max by blast
    have sub: "set (remove1 j pool) \<subseteq> {..<length ds}"
      using Cons.prems(2) set_remove1_subset by fast
    show ?thesis
      using Cons.IH[OF Cons.prems(1) Cons.prems(2) rest, of m]
        Cons.IH[OF Cons.prems(1) sub rest, of "m @ [(tid, j)]"] zip row pb Some val[OF jp]
      by (simp add: best_of_start[OF Cons.prems(1)] p track_ious_def split: prod.splits)
  qed
qed

lemma class_match_thresh_nonneg:
  "0 \<le> match_thresh s \<Longrightarrow> 0 \<le> class_match_thresh s cls"
  by (simp add: class_match_thresh_def class_params_def)

lemma class_match_thresh_person_ball:
  "class_match_thresh s ''person'' = 0.6" "class_match_thresh s ''ball'' = 0.8"
  by (simp_all add: class_match_thresh_def class_params_def)

lemma best_of_clamp:
  "0 \<le> bi \<Longrightarrow> best_of thr row js (bm, bi) = best_of (max thr 0) row js (bm, bi)"
proof (induction js arbitrary: bm bi)
  case Nil
  then show ?case by simp
next
  case (Cons a js)
  have "0 \<le> 1 - row ! a \<or> \<not> (1 - row ! a > bi)" using Cons.prems by linarith
  then show ?case using Cons.IH[of bi bm] Cons.IH[of "1 - row ! a" "Some a"] Cons.prems
    by (auto simp add: Let_def)
qed

lemma greedy_clamp: "greedy thr cm xs acc = greedy (max thr 0) cm xs acc"
proof (induction xs arbitrary: acc)
  case Nil
  then show ?case by simp
next
  case (Cons p xs)
  obtain i tid where p: "p = (i, tid)" by (cases p)
  obtain m u where acc: "acc = (m, u)" by (cases acc)
  have "best_of thr (cm ! i) u (None, 0) = best_of (max thr 0) (cm ! i) u (None, 0)"
    by (rule best_of_clamp) simp
  then show ?case using Cons.IH by (simp add: p acc split: option.splits)
qed

lemma match_tracks_assign:
  "match_tracks s trs dbs dscs cls =
     Inr (assign_greedily (max (class_match_thresh s cls) 0) (map (track_ious dbs) trs)
            [0..<length dbs])"
proof (cases "trs = []")
  case True
  then show ?thesis by (simp add: match_tracks_def)
next
  case False
  let ?thr = "max (class_match_thresh s cls) 0"
  let ?cm = "map (\<lambda>(tid, t). map (\<lambda>d. 1 - iou_value (get_smoothed_bbox t) d) dbs) trs"
  have nn: "0 \<le> ?thr" by simp
  have "greedy ?thr ?cm (zip [0..<0 + length trs] (map fst trs)) ([], [0..<length dbs]) =
        (case assign_greedily ?thr (map (track_ious dbs) trs) [0..<length dbs]
         of (m', u) \<Rightarrow> ([] @ m', u))"
    by (rule greedy_assign[OF nn]) (auto simp: case_prod_beta)
  then have "greedy (class_match_thresh s cls) ?cm (zip [0..<length trs] (map fst trs))
      ([], [0..<length dbs]) = assign_greedily ?thr (map (track_ious dbs) trs) [0..<length dbs]"
    by (subst greedy_clamp) (simp split: prod.splits)
  with False show ?thesis
    by (simp add: match_tracks_def cost_rows_value and_then_def Let_def)
qed

lemma assign_greedily_Cons:
  "assign_greedily thr ((tid, f) # xs) pool = (m, u) \<Longrightarrow>
     (assign_greedily thr xs pool = (m, u)) \<or>
     (\<exists>j m'. pick_best f pool = Some j \<and> f j > thr \<and> m = (tid, j) # m' \<and>
        assign_greedily thr xs (remove1 j pool) = (m', u))"
  by (auto split: option.splits if_splits prod.splits)

lemma assign_greedily_ids:
  "assign_greedily thr xs pool = (m, u) \<Longrightarrow> set (map fst m) \<subseteq> set (map fst xs)"
proof (induction xs arbitrary: pool m u)
  case Nil
  then show ?case by simp
next
  case (Cons p xs)
  obtain tid f where p: "p = (tid, f)" by (cases p)
  from assign_greedily_Cons[OF Cons.prems[unfolded p]] show ?case
  proof (elim disjE exE conjE)
    assume "assign_greedily thr xs pool = (m, u)"
    from Cons.IH[OF this] show ?thesis by auto
  next
    fix j m' assume "m = (tid, j) # m'" "assign_greedily thr xs (remove1 j pool) = (m', u)"
    with Cons.IH[of "remove1 j pool" m' u] p show ?thesis by auto
  qed
qed

lemma assign_greedily_distinct:
  "assign_greedily thr xs pool = (m, u) \<Longrightarrow> distinct (map fst xs) \<Longrightarrow> distinct (map fst m)"
proof (induction xs arbitrary: pool m u)
  case Nil
  then show ?case by simp
next
  case (Cons p xs)
  obtain tid f where p: "p = (tid, f)" by (cases p)
  from Cons.prems(2) p have d: "distinct (map fst xs)" "tid \<notin> set (map fst xs)" by auto
  from assign_greedily_Cons[OF Cons.prems(1)[unfolded p]] show ?case
  proof (elim disjE exE conjE)
    assume "assign_greedily thr xs pool = (m, u)"
    from Cons.IH[OF this d(1)] show ?thesis .
  next
    fix j m' assume a: "m = (tid, j) # m'" "assign_greedily thr xs (remove1 j pool) = (m', u)"
    from Cons.IH[OF a(2) d(1)] assign_greedily_ids[OF a(2)] d(2) a(1) show ?thesis by auto
  qed
qed

lemma assign_greedily_dets:
  "assign_greedily thr xs pool = (m, u) \<Longrightarrow> set (map snd m) \<subseteq> set pool \<and> set u \<subseteq> set pool"
proof (induction xs arbitrary: pool m u)
  case Nil
  then show ?case by simp
next
  case (Cons p xs)
  obtain tid f where p: "p = (tid, f)" by (cases p)
  from assign_greedily_Cons[OF Cons.prems(1)[unfolded p]] show ?case
  proof (elim disjE exE conjE)
    assume "assign_greedily thr xs pool = (m, u)"
    from Cons.IH[OF this] show ?thesis .
  next
    fix j m' assume a: "pick_best f pool = Some j" "m = (tid, j) # m'"
      "assign_greedily thr xs (remove1 j pool) = (m', u)"
    from pick_best_max[OF a(1)] have "j \<in> set pool" by simp
    moreover have "set (remove1 j pool) \<subseteq> set pool" by (rule set_remove1_subset)
    ultimately show ?thesis using Cons.IH[OF a(3)] a(2) by auto
  qed
qed

lemma assign_greedily_accept:
  "assign_greedily thr xs pool = (m, u) \<Longrightarrow> (tid, j) \<in> set m \<Longrightarrow>
     \<exists>f. (tid, f) \<in> set xs \<and> f j > thr"
proof (induction xs arbitrary: pool m u)
  case Nil
  then show ?case by simp
next
  case (Cons p xs)
  obtain tid' f where p: "p = (tid', f)" by (cases p)
  from assign_greedily_Cons[OF Cons.prems(1)[unfolded p]] show ?case
  proof (elim disjE exE conjE)
    assume "assign_greedily thr xs pool = (m, u)"
    from Cons.IH[OF this Cons.prems(2)] show ?thesis by auto
  next
    fix j' m' assume a: "f j' > thr" "m = (tid', j') # m'"
      "assign_greedily thr xs (remove1 j' pool) = (m', u)"
    show ?thesis
    proof (cases "(tid, j) = (tid', j')")
      case True
      with a(1) p show ?thesis by auto
    next
      case False
      with Cons.prems(2) a(2) have "(tid, j) \<in> set m'" by auto
      from Cons.IH[OF a(3) this] show ?thesis by auto
    qed
  qed
qed

lemma same_config_refl: "same_config s s"
  by (simp add: same_config_def)

lemma same_config_trans: "same_config s s1 \<Longrightarrow> same_config s1 s2 \<Longrightarrow> same_config s s2"
  by (simp add: same_config_def)

lemma round_rel_refl: "round_rel D C s s []"
  by (auto simp add: round_rel_def same_config_refl)

lemma round_rel_mono:
  "round_rel D C s s' ids \<Longrightarrow> D \<subseteq> D' \<Longrightarrow> C \<subseteq> C' \<Longrightarrow> round_rel D' C' s s' ids"
  unfolding round_rel_def by (elim conjE, intro conjI; blast)

lemma map_of_keys_None: "k \<notin> set (keys_of s) \<Longrightarrow> map_of (tracks s) k = None"
  by (simp add: keys_of_def map_of_eq_None_iff)

lemma round_rel_trans:
  assumes r1: "round_rel D C s s1 ids1" and r2: "round_rel D C s1 s2 ids2"
    and dj: "set ids1 \<inter> set ids2 = {}"
  shows "round_rel D C s s2 (ids1 @ ids2)"
proof -
  let ?c = "track_id_count s" and ?c1 = "track_id_count s1" and ?c2 = "track_id_count s2"
  from r1 have a: "same_config s s1" "?c \<le> ?c1" "keys_of s1 = keys_of s @ [?c..<?c1]"
    "distinct ids1" "set ids1 \<subseteq> set (keys_of s1)"
    "\<And>k. ?c \<le> k \<Longrightarrow> k < ?c1 \<Longrightarrow> k \<in> set ids1"
    "\<And>k t. map_of (tracks s) k = Some t \<Longrightarrow> k \<notin> set ids1 \<Longrightarrow> map_of (tracks s1) k = Some t"
    "\<And>k t. map_of (tracks s) k = Some t \<Longrightarrow> k \<in> set ids1 \<Longrightarrow> class_name t \<in> C \<and>
        (\<exists>d\<in>D. map_of (tracks s1) k = Some (track_update t (det_bbox d) (det_score d) (tracker_frame_id s)))"
    "\<And>k. ?c \<le> k \<Longrightarrow> k < ?c1 \<Longrightarrow> (\<exists>d\<in>D. \<exists>c\<in>C. map_of (tracks s1) k =
           Some (AdvancedTrack k (det_bbox d) (det_score d) (tracker_frame_id s) c))"
    unfolding round_rel_def by blast+
  from r2 have b: "same_config s1 s2" "?c1 \<le> ?c2" "keys_of s2 = keys_of s1 @ [?c1..<?c2]"
    "distinct ids2" "set ids2 \<subseteq> set (keys_of s2)"
    "\<And>k. ?c1 \<le> k \<Longrightarrow> k < ?c2 \<Longrightarrow> k \<in> set ids2"
    "\<And>k t. map_of (tracks s1) k = Some t \<Longrightarrow> k \<notin> set ids2 \<Longrightarrow> map_of (tracks s2) k = Some t"
    "\<And>k t. map_of (tracks s1) k = Some t \<Longrightarrow> k \<in> set ids2 \<Longrightarrow> class_name t \<in> C \<and>
        (\<exists>d\<in>D. map_of (tracks s2) k = Some (track_update t (det_bbox d) (det_score d) (tracker_frame_id s1)))"
    "\<And>k. ?c1 \<le> k \<Longrightarrow> k < ?c2 \<Longrightarrow> (\<exists>d\<in>D. \<exists>c\<in>C. map_of (tracks s2) k =
           Some (AdvancedTrack k (det_bbox d) (det_score d) (tracker_frame_id s1) c))"
    unfolding round_rel_def by blast+
  have fr: "tracker_frame_id s1 = tracker_frame_id s" using a(1) by (simp add: same_config_def)
  have 1: "same_config s s2" using a(1) b(1) by (rule same_config_trans)
  have 2: "?c \<le> ?c2" using a(2) b(2) by simp
  have "[?c..<?c1] @ [?c1..<?c2] = [?c..<?c2]"
    using a(2) b(2) by (metis le_Suc_ex upt_add_eq_append)
  then have 3: "keys_of s2 = keys_of s @ [?c..<?c2]" using a(3) b(3) by simp
  have 4: "distinct (ids1 @ ids2)" using a(4) b(4) dj by simp
  have 5: "set (ids1 @ ids2) \<subseteq> set (keys_of s2)" using a(5) b(5) b(3) by auto
  have 6: "\<forall>k. ?c \<le> k \<and> k < ?c2 \<longrightarrow> k \<in> set (ids1 @ ids2)"
    using a(6) b(6) by (metis Un_iff not_le_imp_less set_append)
  have 7: "\<forall>k t. map_of (tracks s) k = Some t \<and> k \<notin> set (ids1 @ ids2) \<longrightarrow> map_of (tracks s2) k = Some t"
    using a(7) b(7) by simp
  have 8: "\<forall>k t. map_of (tracks s) k = Some t \<and> k \<in> set (ids1 @ ids2) \<longrightarrow>
        class_name t \<in> C \<and>
        (\<exists>d\<in>D. map_of (tracks s2) k = Some (track_update t (det_bbox d) (det_score d) (tracker_frame_id s)))"
  proof (intro allI impI, elim conjE)
    fix k t assume m: "map_of (tracks s) k = Some t" and k: "k \<in> set (ids1 @ ids2)"
    show "class_name t \<in> C \<and>
        (\<exists>d\<in>D. map_of (tracks s2) k = Some (track_update t (det_bbox d) (det_score d) (tracker_frame_id s)))"
    proof (cases "k \<in> set ids1")
      case True
      with dj have n2: "k \<notin> set ids2" by auto
      from a(8)[OF m True] obtain d where d: "class_name t \<in> C" "d \<in> D"
        "map_of (tracks s1) k = Some (track_update t (det_bbox d) (det_score d) (tracker_frame_id s))"
        by auto
      from b(7)[OF d(3) n2] d(1,2) show ?thesis by auto
    next
      case False
      with k have k2: "k \<in> set ids2" by simp
      from a(7)[OF m False] have "map_of (tracks s1) k = Some t" .
      from b(8)[OF this k2] fr show ?thesis by simp
    qed
  qed
  have 9: "\<forall>k. ?c \<le> k \<and> k < ?c2 \<longrightarrow> (\<exists>d\<in>D. \<exists>c\<in>C. map_of (tracks s2) k =
           Some (AdvancedTrack k (det_bbox d) (det_score d) (tracker_frame_id s) c))"
  proof (intro allI impI, elim conjE)
    fix k assume k: "?c \<le> k" "k < ?c2"
    show "\<exists>d\<in>D. \<exists>c\<in>C. map_of (tracks s2) k =
           Some (AdvancedTrack k (det_bbox d) (det_score d) (tracker_frame_id s) c)"
    proof (cases "k < ?c1")
      case True
      from a(6)[OF k(1) True] dj have n2: "k \<notin> set ids2" by auto
      from a(9)[OF k(1) True] obtain d c where d: "d \<in> D" "c \<in> C"
        "map_of (tracks s1) k = Some (AdvancedTrack k (det_bbox d) (det_score d) (tracker_frame_id s) c)"
        by auto
      from b(7)[OF d(3) n2] d(1,2) show ?thesis by auto
    next
      case False
      then have "?c1 \<le> k" by simp
      from b(9)[OF this k(2)] fr show ?thesis by simp
    qed
  qed
  show ?thesis unfolding round_rel_def using 1 2 3 4 5 6 7 8 9 by blast
qed

lemma track_update_class [simp]: "class_name (track_update t b sc f) = class_name t"
  by (cases b) (simp add: track_update_def update_kalman_def Let_def split: prod.splits)

lemma track_update_tsu [simp]: "time_since_update (track_update t b sc f) = 0"
  by (cases b) (simp add: track_update_def update_kalman_def Let_def split: prod.splits)

lemma AdvancedTrack_fields [simp]:
  "class_name (AdvancedTrack k b sc f c) = c"
  "time_since_update (AdvancedTrack k b sc f c) = 0"
  "is_confirmed (AdvancedTrack k b sc f c) = False"
  "track_id (AdvancedTrack k b sc f c) = k"
  by (cases b; simp add: AdvancedTrack_def)+

lemma new_track_rel:
  assumes lt: "\<forall>k\<in>set (keys_of s). k < track_id_count s"
    and nt: "new_track s (det_bbox d) (det_score d) cls = (s', obj)"
    and d: "d \<in> D" and c: "cls \<in> C"
  shows "round_rel D C s s' [obj_track_id obj]"
    and "obj_track_id obj = track_id_count s"
    and "track_id_count s' = Suc (track_id_count s)"
proof -
  let ?c = "track_id_count s"
  let ?t = "AdvancedTrack ?c (det_bbox d) (det_score d) (tracker_frame_id s) cls"
  from nt have s': "s' = s\<lparr> track_id_count := ?c + 1, tracks := AList.update ?c ?t (tracks s) \<rparr>"
    and obj: "obj_track_id obj = ?c"
    by (auto simp add: new_track_def Let_def)
  from lt have fresh: "?c \<notin> set (keys_of s)" by auto
  then have none: "map_of (tracks s) ?c = None" by (rule map_of_keys_None)
  have keys: "keys_of s' = keys_of s @ [?c]"
    using fresh by (simp add: s' keys_of_def update_keys)
  have mo: "map_of (tracks s') = (map_of (tracks s))(?c \<mapsto> ?t)"
    by (simp add: s' update_conv')
  show "obj_track_id obj = ?c" by (rule obj)
  show "track_id_count s' = Suc ?c" by (simp add: s')
  show "round_rel D C s s' [obj_track_id obj]"
    unfolding round_rel_def
  proof (intro conjI allI impI)
    show "same_config s s'" by (simp add: s' same_config_def)
    show "?c \<le> track_id_count s'" by (simp add: s')
    have "track_id_count s' = Suc ?c" by (simp add: s')
    then show "keys_of s' = keys_of s @ [?c..<track_id_count s']" by (simp add: keys)
    show "distinct [obj_track_id obj]" by simp
    show "set [obj_track_id obj] \<subseteq> set (keys_of s')" by (simp add: obj keys)
  next
    fix k assume "?c \<le> k \<and> k < track_id_count s'"
    then show "k \<in> set [obj_track_id obj]" by (simp add: s' obj)
  next
    fix k t assume "map_of (tracks s) k = Some t \<and> k \<notin> set [obj_track_id obj]"
    then show "map_of (tracks s') k = Some t" by (simp add: mo obj)
  next
    fix k t assume "map_of (tracks s) k = Some t \<and> k \<in> set [obj_track_id obj]"
    with none obj have False by auto
    then show "class_name t \<in> C" "\<exists>d\<in>D. map_of (tracks s') k =
       Some (track_update t (det_bbox d) (det_score d) (tracker_frame_id s))" by blast+
  next
    fix k assume "?c \<le> k \<and> k < track_id_count s'"
    then have "k = ?c" by (simp add: s')
    then show "\<exists>d\<in>D. \<exists>c\<in>C. map_of (tracks s') k =
       Some (AdvancedTrack k (det_bbox d) (det_score d) (tracker_frame_id s) c)"
      using d c by (auto simp add: mo)
  qed
qed

lemma matched_step_rel:
  assumes t0: "map_of (tracks s) tid = Some t0" and c: "class_name t0 \<in> C" and d: "d \<in> D"
    and s': "s' = s\<lparr> tracks := AList.update tid
                 (track_update t0 (det_bbox d) (det_score d) (tracker_frame_id s)) (tracks s) \<rparr>"
  shows "round_rel D C s s' [tid]"
proof -
  from t0 have inkeys: "tid \<in> set (keys_of s)"
    by (metis keys_of_def map_of_eq_None_iff option.distinct(1) set_map)
  have keys: "keys_of s' = keys_of s"
    using inkeys by (simp add: s' keys_of_def update_keys)
  have mo: "map_of (tracks s') = (map_of (tracks s))(tid \<mapsto>
      track_update t0 (det_bbox d) (det_score d) (tracker_frame_id s))"
    by (simp add: s' update_conv')
  show ?thesis
    unfolding round_rel_def
  proof (intro conjI allI impI)
    show "same_config s s'" by (simp add: s' same_config_def)
    show "track_id_count s \<le> track_id_count s'" by (simp add: s')
    have "track_id_count s' = track_id_count s" by (simp add: s')
    then show "keys_of s' = keys_of s @ [track_id_count s..<track_id_count s']" by (simp add: keys)
    show "distinct [tid]" by simp
    show "set [tid] \<subseteq> set (keys_of s')" using inkeys by (simp add: keys)
  next
    fix k assume "track_id_count s \<le> k \<and> k < track_id_count s'"
    then show "k \<in> set [tid]" by (simp add: s')
  next
    fix k t assume "map_of (tracks s) k = Some t \<and> k \<notin> set [tid]"
    then show "map_of (tracks s') k = Some t" by (simp add: mo)
  next
    fix k t assume a: "map_of (tracks s) k = Some t \<and> k \<in> set [tid]"
    with t0 have "k = tid" "t = t0" by auto
    then show "class_name t \<in> C" "\<exists>d\<in>D. map_of (tracks s') k =
       Some (track_update t (det_bbox d) (det_score d) (tracker_frame_id s))"
      using c d by (auto simp add: mo)
  next
    fix k assume "track_id_count s \<le> k \<and> k < track_id_count s'"
    then have False by (auto simp add: s')
    then show "\<exists>d\<in>D. \<exists>c\<in>C. map_of (tracks s') k =
       Some (AdvancedTrack k (det_bbox d) (det_score d) (tracker_frame_id s) c)" ..
  qed
qed

lemma round_rel_facts:
  assumes "round_rel D C s s' ids"
  shows "same_config s s'" "track_id_count s \<le> track_id_count s'"
    "keys_of s' = keys_of s @ [track_id_count s..<track_id_count s']"
    "distinct ids" "set ids \<subseteq> set (keys_of s')"
  using assms unfolding round_rel_def by blast+

lemma round_rel_unchanged:
  "round_rel D C s s' ids \<Longrightarrow> map_of (tracks s) k = Some t \<Longrightarrow> k \<notin> set ids \<Longrightarrow>
     map_of (tracks s') k = Some t"
  unfolding round_rel_def by blast

lemma round_rel_updated:
  "round_rel D C s s' ids \<Longrightarrow> map_of (tracks s) k = Some t \<Longrightarrow> k \<in> set ids \<Longrightarrow>
     class_name t \<in> C \<and> (\<exists>d\<in>D. map_of (tracks s') k =
        Some (track_update t (det_bbox d) (det_score d) (tracker_frame_id s)))"
  unfolding round_rel_def by blast

lemma round_rel_created:
  "round_rel D C s s' ids \<Longrightarrow> track_id_count s \<le> k \<Longrightarrow> k < track_id_count s' \<Longrightarrow>
     k \<in> set ids \<and> (\<exists>d\<in>D. \<exists>c\<in>C. map_of (tracks s') k =
        Some (AdvancedTrack k (det_bbox d) (det_score d) (tracker_frame_id s) c))"
  unfolding round_rel_def by blast

lemma update_matched_rel:
  assumes "distinct (map fst m)"
    and "\<forall>(tid, j)\<in>set m. \<exists>t. map_of (tracks s) tid = Some t \<and> class_name t \<in> C"
    and "\<forall>(tid, j)\<in>set m. \<exists>d\<in>D. det_bbox d = bs ! j \<and> det_score d = scs ! j"
  shows "\<exists>s' out'. update_matched m bs scs cls (s, out) = Inr (s', out @ out') \<and>
           map obj_track_id out' = map fst m \<and> round_rel D C s s' (map fst m) \<and>
           track_id_count s' = track_id_count s"
  using assms
proof (induction m arbitrary: s out)
  case Nil
  then show ?case by (simp add: round_rel_refl)
next
  case (Cons p rest)
  obtain tid j where p: "p = (tid, j)" by (cases p)
  from Cons.prems(2) p obtain t0 where t0: "map_of (tracks s) tid = Some t0" "class_name t0 \<in> C"
    by auto
  from Cons.prems(3) p obtain d where d: "d \<in> D" "det_bbox d = bs ! j" "det_score d = scs ! j"
    by auto
  define t where "t = track_update t0 (bs ! j) (scs ! j) (tracker_frame_id s)"
  define s1 where "s1 = s\<lparr> tracks := AList.update tid t (tracks s) \<rparr>"
  define obj where "obj = \<lparr> obj_track_id = tid, obj_bbox = get_smoothed_bbox t, obj_score = score t,
      obj_frame_id = tracker_frame_id s1, obj_class = cls,
      obj_confidence = get_average_confidence t \<rparr>"
  have r1: "round_rel D C s s1 [tid]"
    by (rule matched_step_rel[OF t0 d(1)]) (simp add: s1_def t_def d)
  have step: "update_matched (p # rest) bs scs cls (s, out) =
      update_matched rest bs scs cls (s1, out @ [obj])"
    by (simp add: p t0 Let_def s1_def t_def obj_def)
  from Cons.prems(1) p have dr: "distinct (map fst rest)" and nin: "tid \<notin> set (map fst rest)"
    by auto
  have pre2: "\<forall>(tid', j')\<in>set rest. \<exists>t. map_of (tracks s1) tid' = Some t \<and> class_name t \<in> C"
  proof (intro ballI, clarify)
    fix tid' j' assume in_rest: "(tid', j') \<in> set rest"
    with nin have ne: "tid' \<notin> set [tid]" by force
    from Cons.prems(2) in_rest obtain t' where t': "map_of (tracks s) tid' = Some t'"
      "class_name t' \<in> C" by fastforce
    from round_rel_unchanged[OF r1 t'(1) ne] t'(2)
    show "\<exists>t. map_of (tracks s1) tid' = Some t \<and> class_name t \<in> C" by blast
  qed
  have pre3: "\<forall>(tid, j)\<in>set rest. \<exists>d\<in>D. det_bbox d = bs ! j \<and> det_score d = scs ! j"
    using Cons.prems(3) by simp
  from Cons.IH[OF dr pre2 pre3, of "out @ [obj]"] obtain s' out' where
    ih: "update_matched rest bs scs cls (s1, out @ [obj]) = Inr (s', (out @ [obj]) @ out')"
      "map obj_track_id out' = map fst rest" "round_rel D C s1 s' (map fst rest)"
      "track_id_count s' = track_id_count s1" by blast
  have "round_rel D C s s' ([tid] @ map fst rest)"
    by (rule round_rel_trans[OF r1 ih(3)]) (use nin in simp)
  moreover have "track_id_count s1 = track_id_count s" by (simp add: s1_def)
  moreover have "obj_track_id obj = tid" by (simp add: obj_def)
  ultimately show ?case using step ih p
    by (intro exI[of _ s'] exI[of _ "obj # out'"]) simp
qed

lemma create_unmatched_rel:
  assumes "\<forall>k\<in>set (keys_of s). k < track_id_count s" and "cls \<in> C"
    and "\<forall>j\<in>set js. \<exists>d\<in>D. det_bbox d = bs ! j \<and> det_score d = scs ! j"
  shows "\<exists>s' out'. create_unmatched js bs scs cls (s, out) = (s', out @ out') \<and>
           map obj_track_id out' = [track_id_count s..<track_id_count s'] \<and>
           round_rel D C s s' (map obj_track_id out') \<and>
           (\<forall>k\<in>set (keys_of s'). k < track_id_count s')"
  using assms
proof (induction js arbitrary: s out)
  case Nil
  then show ?case by (simp add: round_rel_refl)
next
  case (Cons j rest)
  from Cons.prems(3) have pre3: "\<forall>j\<in>set rest. \<exists>d\<in>D. det_bbox d = bs ! j \<and> det_score d = scs ! j"
    by simp
  show ?case
  proof (cases "scs ! j > track_thresh s")
    case False
    then have "create_unmatched (j # rest) bs scs cls (s, out) =
        create_unmatched rest bs scs cls (s, out)" by simp
    with Cons.IH[OF Cons.prems(1,2) pre3, of out] show ?thesis by simp
  next
    case True
    from Cons.prems(3) obtain d where d: "d \<in> D" "det_bbox d = bs ! j" "det_score d = scs ! j"
      by auto
    obtain s1 obj where nt: "new_track s (det_bbox d) (det_score d) cls = (s1, obj)"
      by (cases "new_track s (det_bbox d) (det_score d) cls")
    note n = new_track_rel[OF Cons.prems(1) nt d(1) Cons.prems(2)]
    have step: "create_unmatched (j # rest) bs scs cls (s, out) =
        create_unmatched rest bs scs cls (s1, out @ [obj])"
      using True nt d by simp
    have k1: "\<forall>k\<in>set (keys_of s1). k < track_id_count s1"
      using round_rel_facts(3)[OF n(1)] n(3) Cons.prems(1) by auto
    from Cons.IH[OF k1 Cons.prems(2) pre3, of "out @ [obj]"] obtain s' out' where
      ih: "create_unmatched rest bs scs cls (s1, out @ [obj]) = (s', (out @ [obj]) @ out')"
        "map obj_track_id out' = [track_id_count s1..<track_id_count s']"
        "round_rel D C s1 s' (map obj_track_id out')"
        "\<forall>k\<in>set (keys_of s'). k < track_id_count s'" by blast
    have le: "track_id_count s1 \<le> track_id_count s'" using round_rel_facts(2)[OF ih(3)] .
    have ids: "map obj_track_id (obj # out') = [track_id_count s..<track_id_count s']"
      using ih(2) n(2,3) le by (simp add: upt_conv_Cons)
    have "round_rel D C s s' ([obj_track_id obj] @ map obj_track_id out')"
      by (rule round_rel_trans[OF n(1) ih(3)]) (simp add: ih(2) n(2,3))
    then show ?thesis using step ih ids
      by (intro exI[of _ s'] exI[of _ "obj # out'"]) simp
  qed
qed

lemma create_all_rel:
  assumes "\<forall>k\<in>set (keys_of s). k < track_id_count s" and "cls \<in> C"
    and "set dets \<subseteq> D"
  shows "\<exists>s' out'. create_all dets cls (s, out) = (s', out @ out') \<and>
           map obj_track_id out' = [track_id_count s..<track_id_count s'] \<and>
           round_rel D C s s' (map obj_track_id out') \<and>
           (\<forall>k\<in>set (keys_of s'). k < track_id_count s')"
  using assms
proof (induction dets arbitrary: s out)
  case Nil
  then show ?case by (simp add: round_rel_refl)
next
  case (Cons d rest)
  from Cons.prems(3) have pre3: "set rest \<subseteq> D" and d: "d \<in> D" by simp_all
  show ?case
  proof (cases "det_score d > track_thresh s")
    case False
    then have "create_all (d # rest) cls (s, out) = create_all rest cls (s, out)" by simp
    with Cons.IH[OF Cons.prems(1,2) pre3, of out] show ?thesis by simp
  next
    case True
    obtain s1 obj where nt: "new_track s (det_bbox d) (det_score d) cls = (s1, obj)"
      by (cases "new_track s (det_bbox d) (det_score d) cls")
    note n = new_track_rel[OF Cons.prems(1) nt d Cons.prems(2)]
    have step: "create_all (d # rest) cls (s, out) = create_all rest cls (s1, out @ [obj])"
      using True nt by simp
    have k1: "\<forall>k\<in>set (keys_of s1). k < track_id_count s1"
      using round_rel_facts(3)[OF n(1)] n(3) Cons.prems(1) by auto
    from Cons.IH[OF k1 Cons.prems(2) pre3, of "out @ [obj]"] obtain s' out' where
      ih: "create_all rest cls (s1, out @ [obj]) = (s', (out @ [obj]) @ out')"
        "map obj_track_id out' = [track_id_count s1..<track_id_count s']"
        "round_rel D C s1 s' (map obj_track_id out')"
        "\<forall>k\<in>set (keys_of s'). k < track_id_count s'" by blast
    have le: "track_id_count s1 \<le> track_id_count s'" using round_rel_facts(2)[OF ih(3)] .
    have ids: "map obj_track_id (obj # out') = [track_id_count s..<track_id_count s']"
      using ih(2) n(2,3) le by (simp add: upt_conv_Cons)
    have "round_rel D C s s' ([obj_track_id obj] @ map obj_track_id out')"
      by (rule round_rel_trans[OF n(1) ih(3)]) (simp add: ih(2) n(2,3))
    then show ?thesis using step ih ids
      by (intro exI[of _ s'] exI[of _ "obj # out'"]) simp
  qed
qed

lemma map_of_distinct_iff:
  "distinct (map fst al) \<Longrightarrow> map_of al k = Some v \<longleftrightarrow> (k, v) \<in> set al"
  by simp

lemma key_has_track:
  "k \<in> set (keys_of s) \<Longrightarrow> \<exists>t. map_of (tracks s) k = Some t"
  by (metis keys_of_def map_of_eq_None_iff not_Some_eq set_map)

lemma track_has_key:
  "map_of (tracks s) k = Some t \<Longrightarrow> k \<in> set (keys_of s)"
  by (metis keys_of_def map_of_eq_None_iff option.distinct(1) set_map)

lemma round_rel_emitted:
  assumes r: "round_rel D C s s' ids" and k: "k \<in> set ids"
  shows "\<exists>t'. map_of (tracks s') k = Some t' \<and> class_name t' \<in> C \<and> time_since_update t' = 0"
proof -
  from round_rel_facts(3,5)[OF r] k
  have "k \<in> set (keys_of s) \<or> (track_id_count s \<le> k \<and> k < track_id_count s')" by auto
  then show ?thesis
  proof
    assume "k \<in> set (keys_of s)"
    then obtain t where t: "map_of (tracks s) k = Some t" using key_has_track by blast
    from round_rel_updated[OF r t k] show ?thesis by auto
  next
    assume "track_id_count s \<le> k \<and> k < track_id_count s'"
    then have "\<exists>d\<in>D. \<exists>c\<in>C. map_of (tracks s') k =
        Some (AdvancedTrack k (det_bbox d) (det_score d) (tracker_frame_id s) c)"
      using round_rel_created[OF r] by blast
    then show ?thesis by auto
  qed
qed

lemma update_class_tracks_rel:
  assumes dk: "distinct (keys_of s)" and lt: "\<forall>k\<in>set (keys_of s). k < track_id_count s"
    and sub: "set dets \<subseteq> D"
  shows "\<exists>s' out. update_class_tracks s dets cls = Inr (s', out) \<and>
           round_rel D {cls} s s' (map obj_track_id out) \<and>
           (\<forall>k\<in>set (keys_of s'). k < track_id_count s')"
proof (cases "dets = []")
  case True
  then show ?thesis using lt by (simp add: update_class_tracks_def round_rel_refl)
next
  case ne: False
  define ct where "ct = filter (\<lambda>(tid, t). class_name t = cls) (tracks s)"
  show ?thesis
  proof (cases "ct = []")
    case True
    have c: "cls \<in> {cls}" by simp
    from create_all_rel[OF lt c sub, of "[]"] obtain s' out' where
      "create_all dets cls (s, []) = (s', out')" "round_rel D {cls} s s' (map obj_track_id out')"
      "\<forall>k\<in>set (keys_of s'). k < track_id_count s'" by auto
    then show ?thesis using ne True
      by (simp add: update_class_tracks_def ct_def)
  next
    case False
    define dbs where "dbs = map det_bbox dets"
    define dscs where "dscs = map det_score dets"
    obtain m u where mu: "assign_greedily (max (class_match_thresh s cls) 0)
        (map (track_ious dbs) ct) [0..<length dbs] = (m, u)" by fastforce
    have mt: "match_tracks s ct dbs dscs cls = Inr (m, u)"
      using match_tracks_assign[of s ct dbs dscs cls] mu by simp
    have fst_ct: "map fst (map (track_ious dbs) ct) = map fst ct"
      by (simp add: track_ious_def case_prod_beta)
    have dct: "distinct (map fst ct)"
      using dk by (simp add: ct_def keys_of_def distinct_map_filter)
    have dm: "distinct (map fst m)"
      by (rule assign_greedily_distinct[OF mu, unfolded fst_ct, OF dct])
    have idsub: "set (map fst m) \<subseteq> set (map fst ct)"
      by (rule assign_greedily_ids[OF mu, unfolded fst_ct])
    have detidx: "set (map snd m) \<subseteq> {..<length dets}" "set u \<subseteq> {..<length dets}"
      using assign_greedily_dets[OF mu] by (auto simp add: dbs_def)
    have det_ex: "\<And>j. j < length dets \<Longrightarrow> \<exists>d\<in>D. det_bbox d = dbs ! j \<and> det_score d = dscs ! j"
    proof -
      fix j assume j: "j < length dets"
      then have "dets ! j \<in> D" using sub by auto
      then show "\<exists>d\<in>D. det_bbox d = dbs ! j \<and> det_score d = dscs ! j"
        using j by (intro bexI[of _ "dets ! j"]) (simp_all add: dbs_def dscs_def)
    qed
    have pre2: "\<forall>(tid, j)\<in>set m. \<exists>t. map_of (tracks s) tid = Some t \<and> class_name t \<in> {cls}"
    proof (intro ballI, clarify)
      fix tid j assume "(tid, j) \<in> set m"
      then have "tid \<in> set (map fst ct)" using idsub by force
      then obtain t where "(tid, t) \<in> set ct" by auto
      then have "(tid, t) \<in> set (tracks s)" "class_name t = cls" by (auto simp add: ct_def)
      then show "\<exists>t. map_of (tracks s) tid = Some t \<and> class_name t \<in> {cls}"
        using dk by (auto simp add: keys_of_def)
    qed
    have pre3: "\<forall>(tid, j)\<in>set m. \<exists>d\<in>D. det_bbox d = dbs ! j \<and> det_score d = dscs ! j"
    proof (intro ballI, clarify)
      fix tid j assume "(tid, j) \<in> set m"
      then have "j < length dets" using detidx(1) by force
      then show "\<exists>d\<in>D. det_bbox d = dbs ! j \<and> det_score d = dscs ! j" by (rule det_ex)
    qed
    from update_matched_rel[OF dm pre2 pre3, of cls "[]"] obtain s1 out1 where
      um: "update_matched m dbs dscs cls (s, []) = Inr (s1, out1)"
        "map obj_track_id out1 = map fst m" "round_rel D {cls} s s1 (map fst m)"
        "track_id_count s1 = track_id_count s" by auto
    have k1: "\<forall>k\<in>set (keys_of s1). k < track_id_count s1"
      using round_rel_facts(3)[OF um(3)] um(4) lt by simp
    have c: "cls \<in> {cls}" by simp
    have pre3u: "\<forall>j\<in>set u. \<exists>d\<in>D. det_bbox d = dbs ! j \<and> det_score d = dscs ! j"
      using detidx(2) det_ex by blast
    from create_unmatched_rel[OF k1 c pre3u, of out1] obtain s2 out2 where
      cu: "create_unmatched u dbs dscs cls (s1, out1) = (s2, out1 @ out2)"
        "map obj_track_id out2 = [track_id_count s1..<track_id_count s2]"
        "round_rel D {cls} s1 s2 (map obj_track_id out2)"
        "\<forall>k\<in>set (keys_of s2). k < track_id_count s2" by blast
    have "set (map fst m) \<subseteq> set (keys_of s1)" using round_rel_facts(5)[OF um(3)] .
    with k1 have "\<forall>k\<in>set (map fst m). k < track_id_count s1" by blast
    then have dj: "set (map fst m) \<inter> set (map obj_track_id out2) = {}"
      unfolding cu(2) by fastforce
    have rr: "round_rel D {cls} s s2 (map obj_track_id (out1 @ out2))"
      using round_rel_trans[OF um(3) cu(3) dj] um(2) by simp
    have "update_class_tracks s dets cls = Inr (s2, out1 @ out2)"
      using ne False mt um(1) cu(1)
      by (simp add: update_class_tracks_def ct_def[symmetric] dbs_def[symmetric]
          dscs_def[symmetric] and_then_def Let_def)
    with rr cu(4) show ?thesis by blast
  qed
qed

lemma remove_tracks_eq:
  "distinct L \<Longrightarrow> set L \<inter> removed_tracks s = {} \<Longrightarrow>
     remove_tracks L s = s\<lparr> removed_tracks := removed_tracks s \<union> set L,
                           tracks := filter (\<lambda>(k, t). k \<notin> set L) (tracks s) \<rparr>"
proof (induction L arbitrary: s)
  case Nil
  then show ?case by simp
next
  case (Cons tid rest)
  let ?s1 = "s\<lparr> removed_tracks := insert tid (removed_tracks s),
                 tracks := AList.delete tid (tracks s) \<rparr>"
  from Cons.prems have a: "tid \<notin> removed_tracks s" "distinct rest"
    "set rest \<inter> removed_tracks ?s1 = {}" by auto
  have "filter (\<lambda>(k, t). k \<notin> set rest) (AList.delete tid (tracks s)) =
        filter (\<lambda>(k, t). k \<notin> set (tid # rest)) (tracks s)"
    by (auto simp add: AList.delete_eq intro: filter_cong)
  with Cons.IH[OF a(2,3)] a(1) show ?case by simp
qed

lemma handle_lost_tracks_eq:
  assumes dk: "distinct (keys_of s)" and dj: "set (keys_of s) \<inter> removed_tracks s = {}"
  shows "handle_lost_tracks s =
     s\<lparr> removed_tracks := removed_tracks s \<union>
            {k. \<exists>t. (k, t) \<in> set (tracks s) \<and> time_since_update t > max_time_lost s},
        tracks := filter (\<lambda>(k, t). \<not> time_since_update t > max_time_lost s) (tracks s) \<rparr>"
proof -
  define L where "L = map fst (filter (\<lambda>(tid, t). time_since_update t > max_time_lost s) (tracks s))"
  have dL: "distinct L" using dk by (simp add: L_def keys_of_def distinct_map_filter)
  have setL: "set L = {k. \<exists>t. (k, t) \<in> set (tracks s) \<and> time_since_update t > max_time_lost s}"
    by (force simp add: L_def)
  have "set L \<subseteq> set (keys_of s)" by (auto simp add: L_def keys_of_def)
  with dj have djL: "set L \<inter> removed_tracks s = {}" by auto
  have flt: "filter (\<lambda>(k, t). k \<notin> set L) (tracks s) =
      filter (\<lambda>(k, t). \<not> time_since_update t > max_time_lost s) (tracks s)"
  proof (rule filter_cong[OF refl], clarify)
    fix k t assume kt: "(k, t) \<in> set (tracks s)"
    have "k \<in> set L \<longleftrightarrow> time_since_update t > max_time_lost s"
    proof
      assume "k \<in> set L"
      then obtain t' where t': "(k, t') \<in> set (tracks s)" "time_since_update t' > max_time_lost s"
        using setL by auto
      from dk kt t'(1) have "t' = t" by (auto simp add: keys_of_def dest: eq_key_imp_eq_value)
      with t'(2) show "time_since_update t > max_time_lost s" by simp
    next
      assume "time_since_update t > max_time_lost s"
      with kt show "k \<in> set L" using setL by auto
    qed
    then show "(k \<notin> set L) = (\<not> max_time_lost s < time_since_update t)" by simp
  qed
  have "handle_lost_tracks s = remove_tracks L s"
    by (simp add: handle_lost_tracks_def L_def)
  also have "\<dots> = s\<lparr> removed_tracks := removed_tracks s \<union> set L,
                        tracks := filter (\<lambda>(k, t). k \<notin> set L) (tracks s) \<rparr>"
    by (rule remove_tracks_eq[OF dL djL])
  also have "\<dots> = s\<lparr> removed_tracks := removed_tracks s \<union> set L,
      tracks := filter (\<lambda>(k, t). \<not> time_since_update t > max_time_lost s) (tracks s) \<rparr>"
    by (simp only: flt)
  also have "\<dots> = s\<lparr> removed_tracks := removed_tracks s \<union>
            {k. \<exists>t. (k, t) \<in> set (tracks s) \<and> time_since_update t > max_time_lost s},
      tracks := filter (\<lambda>(k, t). \<not> time_since_update t > max_time_lost s) (tracks s) \<rparr>"
    by (simp only: setL)
  finally show ?thesis .
qed

lemma tick_fields [simp]:
  "track_id_count (tick s) = track_id_count s"
  "removed_tracks (tick s) = removed_tracks s"
  "tracker_frame_id (tick s) = tracker_frame_id s + 1"
  "max_time_lost (tick s) = max_time_lost s"
  "match_thresh (tick s) = match_thresh s"
  "track_thresh (tick s) = track_thresh s"
  "min_track_length (tick s) = min_track_length s"
  "lost_tracks (tick s) = lost_tracks s"
  by (simp_all add: tick_def)

lemma keys_of_tick [simp]: "keys_of (tick s) = keys_of s"
  by (simp add: tick_def keys_of_def case_prod_beta comp_def)

lemma map_of_tick: "map_of (tracks (tick s)) k = map_option bump (map_of (tracks s) k)"
proof -
  have "map_of (map (\<lambda>(tid, t). (tid, bump t)) al) k = map_option bump (map_of al k)" for al
    by (induction al) auto
  then show ?thesis by (simp add: tick_def)
qed

lemma tracker_update_empty: "tracker_update s [] = Inr (tick s, predict_tracks (tick s))"
  by (simp add: tracker_update_def tick_def bump_def Let_def)

lemma tracker_update_nonempty:
  "ds \<noteq> [] \<Longrightarrow> tracker_update s ds =
     and_then (if filter (\<lambda>d. det_class d = ''person'') ds \<noteq> []
               then update_class_tracks (tick s) (filter (\<lambda>d. det_class d = ''person'') ds) ''person''
               else Inr (tick s, []))
       (\<lambda>(s2, person_tracks).
     and_then (if filter (\<lambda>d. det_class d = ''ball'') ds \<noteq> []
               then update_class_tracks s2 (filter (\<lambda>d. det_class d = ''ball'') ds) ''ball''
               else Inr (s2, []))
       (\<lambda>(s3, ball_tracks). Inr (handle_lost_tracks s3, person_tracks @ ball_tracks)))"
  by (simp add: tracker_update_def tick_def bump_def Let_def)

lemma round_rel_sorted:
  assumes r: "round_rel D C s s' ids" and so: "sorted_wrt (<) (keys_of s)"
    and lt: "\<forall>k\<in>set (keys_of s). k < track_id_count s"
  shows "sorted_wrt (<) (keys_of s')"
  using round_rel_facts(3)[OF r] so lt by (auto simp add: sorted_wrt_append)

lemma sorted_wrt_less_distinct: "sorted_wrt (<) (xs :: nat list) \<Longrightarrow> distinct xs"
  by (induction xs) auto

lemma class_round:
  assumes so: "sorted_wrt (<) (keys_of s)" and lt: "\<forall>k\<in>set (keys_of s). k < track_id_count s"
    and sub: "set dets \<subseteq> D"
  shows "\<exists>s' out. (if dets \<noteq> [] then update_class_tracks s dets cls else Inr (s, [])) = Inr (s', out) \<and>
           round_rel D {cls} s s' (map obj_track_id out) \<and>
           (\<forall>k\<in>set (keys_of s'). k < track_id_count s') \<and> sorted_wrt (<) (keys_of s')"
proof -
  from update_class_tracks_rel[OF sorted_wrt_less_distinct[OF so] lt sub]
  obtain s' out where u: "update_class_tracks s dets cls = Inr (s', out)"
    "round_rel D {cls} s s' (map obj_track_id out)"
    "\<forall>k\<in>set (keys_of s'). k < track_id_count s'" by blast
  show ?thesis
  proof (cases "dets = []")
    case True
    then show ?thesis using so lt by (simp add: round_rel_refl)
  next
    case False
    then show ?thesis using u round_rel_sorted[OF u(2) so lt] by auto
  qed
qed

lemma tracker_update_rounds:
  assumes so: "sorted_wrt (<) (keys_of s)" and lt: "\<forall>k\<in>set (keys_of s). k < track_id_count s"
    and ne: "ds \<noteq> []"
  shows "\<exists>s3 out. tracker_update s ds = Inr (handle_lost_tracks s3, out) \<and>
           round_rel (set ds) {''person'', ''ball''} (tick s) s3 (map obj_track_id out) \<and>
           (\<forall>k\<in>set (keys_of s3). k < track_id_count s3) \<and> sorted_wrt (<) (keys_of s3)"
proof -
  let ?pd = "filter (\<lambda>d. det_class d = ''person'') ds"
  let ?bd = "filter (\<lambda>d. det_class d = ''ball'') ds"
  have so1: "sorted_wrt (<) (keys_of (tick s))" and lt1: "\<forall>k\<in>set (keys_of (tick s)). k < track_id_count (tick s)"
    using so lt by simp_all
  from class_round[OF so1 lt1, where dets = ?pd and D = "set ds" and cls = "''person''"] obtain s2 out_p where
    p: "(if ?pd \<noteq> [] then update_class_tracks (tick s) ?pd ''person'' else Inr (tick s, [])) = Inr (s2, out_p)"
      "round_rel (set ds) {''person''} (tick s) s2 (map obj_track_id out_p)"
      "\<forall>k\<in>set (keys_of s2). k < track_id_count s2" "sorted_wrt (<) (keys_of s2)" by auto
  from class_round[OF p(4) p(3), where dets = ?bd and D = "set ds" and cls = "''ball''"] obtain s3 out_b where
    b: "(if ?bd \<noteq> [] then update_class_tracks s2 ?bd ''ball'' else Inr (s2, [])) = Inr (s3, out_b)"
      "round_rel (set ds) {''ball''} s2 s3 (map obj_track_id out_b)"
      "\<forall>k\<in>set (keys_of s3). k < track_id_count s3" "sorted_wrt (<) (keys_of s3)" by auto
  have dj: "set (map obj_track_id out_p) \<inter> set (map obj_track_id out_b) = {}"
  proof (rule ccontr)
    assume "set (map obj_track_id out_p) \<inter> set (map obj_track_id out_b) \<noteq> {}"
    then obtain k where k: "k \<in> set (map obj_track_id out_p)" "k \<in> set (map obj_track_id out_b)"
      by auto
    from round_rel_emitted[OF p(2) k(1)] obtain t2 where
      t2: "map_of (tracks s2) k = Some t2" "class_name t2 = ''person''" by auto
    from round_rel_updated[OF b(2) t2(1) k(2)] t2(2) show False by simp
  qed
  have "round_rel (set ds) {''person'', ''ball''} (tick s) s3
          (map obj_track_id out_p @ map obj_track_id out_b)"
    by (rule round_rel_trans[OF round_rel_mono[OF p(2)] round_rel_mono[OF b(2)] dj]) auto
  moreover have "tracker_update s ds = Inr (handle_lost_tracks s3, out_p @ out_b)"
    unfolding tracker_update_nonempty[OF ne] p(1) using b(1) by (simp add: and_then_def)
  ultimately show ?thesis using b(3,4) by (intro exI[of _ s3] exI[of _ "out_p @ out_b"]) simp
qed

lemma tracker_inv_facts:
  assumes "tracker_inv s"
  shows "sorted_wrt (<) (keys_of s)" "distinct (keys_of s)"
    "\<forall>k\<in>set (keys_of s). k < track_id_count s"
    "\<forall>k\<in>removed_tracks s. k < track_id_count s"
    "set (keys_of s) \<inter> removed_tracks s = {}"
    "\<And>k t. map_of (tracks s) k = Some t \<Longrightarrow> 0 \<le> time_since_update t"
proof -
  from assms show so: "sorted_wrt (<) (keys_of s)" by (simp add: tracker_inv_def)
  then show d: "distinct (keys_of s)" by (rule sorted_wrt_less_distinct)
  from assms show "\<forall>k\<in>set (keys_of s). k < track_id_count s"
    "\<forall>k\<in>removed_tracks s. k < track_id_count s"
    "set (keys_of s) \<inter> removed_tracks s = {}" by (simp_all add: tracker_inv_def)
  fix k t assume "map_of (tracks s) k = Some t"
  then have "(k, t) \<in> set (tracks s)" by (rule map_of_SomeD)
  with assms show "0 \<le> time_since_update t" by (auto simp add: tracker_inv_def)
qed

lemma map_of_filter_Some:
  "distinct (map fst al) \<Longrightarrow>
     map_of (filter P al) k = Some v \<longleftrightarrow> map_of al k = Some v \<and> P (k, v)"
  by (auto simp add: distinct_map_filter)

lemma tracker_update_shape:
  assumes inv: "tracker_inv s" and ne: "ds \<noteq> []"
  shows "\<exists>s3 out. tracker_update s ds =
           Inr (s3\<lparr> removed_tracks := removed_tracks s \<union>
                      {k. \<exists>t. (k, t) \<in> set (tracks s3) \<and> time_since_update t > max_time_lost s},
                    tracks := filter (\<lambda>(k, t). \<not> time_since_update t > max_time_lost s)
                                (tracks s3) \<rparr>, out) \<and>
           round_rel (set ds) {''person'', ''ball''} (tick s) s3 (map obj_track_id out) \<and>
           (\<forall>k\<in>set (keys_of s3). k < track_id_count s3) \<and> sorted_wrt (<) (keys_of s3)"
proof -
  note i = tracker_inv_facts[OF inv]
  from tracker_update_rounds[OF i(1) i(3) ne] obtain s3 out where
    r: "tracker_update s ds = Inr (handle_lost_tracks s3, out)"
      "round_rel (set ds) {''person'', ''ball''} (tick s) s3 (map obj_track_id out)"
      "\<forall>k\<in>set (keys_of s3). k < track_id_count s3" "sorted_wrt (<) (keys_of s3)" by blast
  from round_rel_facts(1)[OF r(2)] have cfg: "removed_tracks s3 = removed_tracks s"
    "max_time_lost s3 = max_time_lost s" by (simp_all add: same_config_def)
  have keys3: "keys_of s3 = keys_of s @ [track_id_count s..<track_id_count s3]"
    using round_rel_facts(3)[OF r(2)] by simp
  have dj: "set (keys_of s3) \<inter> removed_tracks s3 = {}"
    using i(4,5) by (auto simp add: keys3 cfg)
  note h = handle_lost_tracks_eq[OF sorted_wrt_less_distinct[OF r(4)] dj, unfolded cfg]
  show ?thesis
  proof (intro exI conjI)
    show "tracker_update s ds =
           Inr (s3\<lparr> removed_tracks := removed_tracks s \<union>
                      {k. \<exists>t. (k, t) \<in> set (tracks s3) \<and> time_since_update t > max_time_lost s},
                    tracks := filter (\<lambda>(k, t). \<not> time_since_update t > max_time_lost s)
                                (tracks s3) \<rparr>, out)"
      using r(1) unfolding h .
    show "round_rel (set ds) {''person'', ''ball''} (tick s) s3 (map obj_track_id out)" by (rule r(2))
    show "\<forall>k\<in>set (keys_of s3). k < track_id_count s3" by (rule r(3))
    show "sorted_wrt (<) (keys_of s3)" by (rule r(4))
  qed
qed

lemma tracker_update_track:
  assumes inv: "tracker_inv s" and u: "tracker_update s ds = Inr (s', out)"
    and t: "map_of (tracks s) k = Some t" and t': "map_of (tracks s') k = Some t'"
  shows "(t' = bump t \<and> (ds \<noteq> [] \<longrightarrow> k \<notin> obj_track_id ` set out)) \<or>
         (ds \<noteq> [] \<and> k \<in> obj_track_id ` set out \<and>
          (\<exists>d\<in>set ds. t' = track_update (bump t) (det_bbox d) (det_score d) (tracker_frame_id s + 1)))"
proof (cases "ds = []")
  case True
  with u have "s' = tick s" by (simp add: tracker_update_empty)
  with t t' True show ?thesis by (simp add: map_of_tick)
next
  case False
  from tracker_update_shape[OF inv False] u obtain s3 where
    s': "s' = s3\<lparr> removed_tracks := removed_tracks s \<union>
                      {k. \<exists>t. (k, t) \<in> set (tracks s3) \<and> time_since_update t > max_time_lost s},
                    tracks := filter (\<lambda>(k, t). \<not> time_since_update t > max_time_lost s)
                                (tracks s3) \<rparr>"
    and r: "round_rel (set ds) {''person'', ''ball''} (tick s) s3 (map obj_track_id out)"
    and so: "sorted_wrt (<) (keys_of s3)" by auto
  have d3: "distinct (map fst (tracks s3))"
    using sorted_wrt_less_distinct[OF so] by (simp add: keys_of_def)
  from t' have t3: "map_of (tracks s3) k = Some t'"
    by (simp add: s' map_of_filter_Some[OF d3])
  from t have t1: "map_of (tracks (tick s)) k = Some (bump t)" by (simp add: map_of_tick)
  show ?thesis
  proof (cases "k \<in> set (map obj_track_id out)")
    case True
    from round_rel_updated[OF r t1 True] t3 False True show ?thesis by auto
  next
    case nin: False
    from round_rel_unchanged[OF r t1 nin] t3 nin show ?thesis by auto
  qed
qed

lemma tracker_update_new_track:
  assumes inv: "tracker_inv s" and u: "tracker_update s ds = Inr (s', out)"
    and t: "map_of (tracks s) k = None" and t': "map_of (tracks s') k = Some t'"
  shows "track_id_count s \<le> k \<and> k < track_id_count s' \<and> k \<in> obj_track_id ` set out \<and>
     (\<exists>d\<in>set ds. \<exists>c\<in>{''person'', ''ball''}.
        t' = AdvancedTrack k (det_bbox d) (det_score d) (tracker_frame_id s + 1) c)"
proof (cases "ds = []")
  case True
  with u have "s' = tick s" by (simp add: tracker_update_empty)
  with t t' show ?thesis by (simp add: map_of_tick)
next
  case False
  from tracker_update_shape[OF inv False] u obtain s3 where
    s': "s' = s3\<lparr> removed_tracks := removed_tracks s \<union>
                      {k. \<exists>t. (k, t) \<in> set (tracks s3) \<and> time_since_update t > max_time_lost s},
                    tracks := filter (\<lambda>(k, t). \<not> time_since_update t > max_time_lost s)
                                (tracks s3) \<rparr>"
    and r: "round_rel (set ds) {''person'', ''ball''} (tick s) s3 (map obj_track_id out)"
    and so: "sorted_wrt (<) (keys_of s3)" by auto
  have d3: "distinct (map fst (tracks s3))"
    using sorted_wrt_less_distinct[OF so] by (simp add: keys_of_def)
  from t' have t3: "map_of (tracks s3) k = Some t'"
    by (simp add: s' map_of_filter_Some[OF d3])
  from t have "k \<notin> set (keys_of s)" using key_has_track by fastforce
  moreover have "k \<in> set (keys_of s3)" using t3 by (rule track_has_key)
  ultimately have k: "track_id_count (tick s) \<le> k" "k < track_id_count s3"
    using round_rel_facts(3)[OF r] by auto
  have "track_id_count s' = track_id_count s3" by (simp add: s')
  with round_rel_created[OF r k] t3 k show ?thesis by auto
qed

lemma sorted_keys_filter:
  "sorted_wrt (<) (map fst xs) \<Longrightarrow> sorted_wrt (<) (map fst (filter P xs))"
  by (simp add: sorted_wrt_map sorted_wrt_filter)

lemma bump_tsu [simp]: "time_since_update (bump t) = time_since_update t + 1"
  by (simp add: bump_def)

lemma tracker_inv_step:
  assumes inv: "tracker_inv s" and u: "tracker_update s ds = Inr (s', out)"
  shows "tracker_inv s'"
proof -
  note i = tracker_inv_facts[OF inv]
  have tsu: "\<forall>(k, t')\<in>set (tracks s'). 0 \<le> time_since_update t'" if d: "distinct (keys_of s')"
  proof (intro ballI, clarify)
    fix k t' assume "(k, t') \<in> set (tracks s')"
    with d have t': "map_of (tracks s') k = Some t'" by (simp add: keys_of_def)
    show "0 \<le> time_since_update t'"
    proof (cases "map_of (tracks s) k")
      case None
      from tracker_update_new_track[OF inv u None t'] show ?thesis by auto
    next
      case (Some t)
      from tracker_update_track[OF inv u Some t'] i(6)[OF Some] show ?thesis by auto
    qed
  qed
  show ?thesis
  proof (cases "ds = []")
    case True
    with u have s': "s' = tick s" by (simp add: tracker_update_empty)
    have "distinct (keys_of s')" using i(2) by (simp add: s')
    from tsu[OF this] i(1,3,4,5) show ?thesis by (simp add: tracker_inv_def s')
  next
    case False
    from tracker_update_shape[OF inv False] u obtain s3 where
      s': "s' = s3\<lparr> removed_tracks := removed_tracks s \<union>
                      {k. \<exists>t. (k, t) \<in> set (tracks s3) \<and> time_since_update t > max_time_lost s},
                    tracks := filter (\<lambda>(k, t). \<not> time_since_update t > max_time_lost s)
                                (tracks s3) \<rparr>"
      and r: "round_rel (set ds) {''person'', ''ball''} (tick s) s3 (map obj_track_id out)"
      and lt: "\<forall>k\<in>set (keys_of s3). k < track_id_count s3"
      and so: "sorted_wrt (<) (keys_of s3)" by auto
    have le: "track_id_count s \<le> track_id_count s3" using round_rel_facts(2)[OF r] by simp
    have d3: "distinct (map fst (tracks s3))"
      using sorted_wrt_less_distinct[OF so] by (simp add: keys_of_def)
    have 1: "sorted_wrt (<) (keys_of s')"
      using so by (simp add: s' keys_of_def sorted_keys_filter)
    have sub: "set (keys_of s') \<subseteq> set (keys_of s3)" by (auto simp add: s' keys_of_def)
    have 2: "\<forall>k\<in>set (keys_of s'). k < track_id_count s'"
      using sub lt by (auto simp add: s')
    have 3: "\<forall>k\<in>removed_tracks s'. k < track_id_count s'"
    proof
      fix k assume "k \<in> removed_tracks s'"
      then have "k \<in> removed_tracks s \<or> k \<in> set (keys_of s3)"
        by (force simp add: s' keys_of_def)
      with i(4) le lt show "k < track_id_count s'" by (auto simp add: s')
    qed
    have keys3: "keys_of s3 = keys_of s @ [track_id_count s..<track_id_count s3]"
      using round_rel_facts(3)[OF r] by simp
    have 4: "set (keys_of s') \<inter> removed_tracks s' = {}"
    proof (rule ccontr)
      assume "set (keys_of s') \<inter> removed_tracks s' \<noteq> {}"
      then obtain k where k: "k \<in> set (keys_of s')" "k \<in> removed_tracks s'" by auto
      from k(1) obtain t1 where t1: "(k, t1) \<in> set (tracks s3)"
        "\<not> time_since_update t1 > max_time_lost s" by (auto simp add: s' keys_of_def)
      from k(2) have "k \<in> removed_tracks s \<or>
          (\<exists>t. (k, t) \<in> set (tracks s3) \<and> time_since_update t > max_time_lost s)"
        by (simp add: s')
      then show False
      proof
        assume kr: "k \<in> removed_tracks s"
        from t1(1) have "k \<in> set (keys_of s3)" by (force simp add: keys_of_def)
        with kr i(4,5) show False by (auto simp add: keys3)
      next
        assume "\<exists>t. (k, t) \<in> set (tracks s3) \<and> time_since_update t > max_time_lost s"
        then obtain t2 where t2: "(k, t2) \<in> set (tracks s3)"
          "time_since_update t2 > max_time_lost s" by auto
        from d3 t1(1) t2(1) have "t1 = t2" by (rule eq_key_imp_eq_value)
        with t1(2) t2(2) show False by simp
      qed
    qed
    from tsu[OF sorted_wrt_less_distinct[OF 1]] 1 2 3 4 show ?thesis
      by (simp add: tracker_inv_def)
  qed
qed

lemma tracker_inv_init: "tracker_inv (AdvancedMultiObjectTracker tt mt mtl mlen)"
  by (simp add: tracker_inv_def AdvancedMultiObjectTracker_def keys_of_def)

lemma reachable_inv: "reachable (AdvancedMultiObjectTracker tt mt mtl mlen) s \<Longrightarrow> tracker_inv s"
  by (induction rule: reachable.induct) (auto intro: tracker_inv_init tracker_inv_step)

lemma tracker_update_config:
  assumes "tracker_update s ds = Inr (s', out)" and "tracker_inv s"
  shows "track_thresh s' = track_thresh s \<and> match_thresh s' = match_thresh s \<and>
         max_time_lost s' = max_time_lost s \<and> min_track_length s' = min_track_length s \<and>
         tracker_frame_id s' = tracker_frame_id s + 1 \<and> lost_tracks s' = lost_tracks s"
proof (cases "ds = []")
  case True
  with assms show ?thesis by (auto simp add: tracker_update_empty)
next
  case False
  from tracker_update_shape[OF assms(2) False] assms(1) obtain s3 where
    s': "s' = s3\<lparr> removed_tracks := removed_tracks s \<union>
                      {k. \<exists>t. (k, t) \<in> set (tracks s3) \<and> time_since_update t > max_time_lost s},
                    tracks := filter (\<lambda>(k, t). \<not> time_since_update t > max_time_lost s)
                                (tracks s3) \<rparr>"
      and r: "round_rel (set ds) {''person'', ''ball''} (tick s) s3 (map obj_track_id out)" by auto
  from round_rel_facts(1)[OF r] show ?thesis by (simp add: s' same_config_def)
qed

lemma reachable_config:
  "reachable s0 s \<Longrightarrow> tracker_inv s0 \<Longrightarrow>
     tracker_inv s \<and> track_thresh s = track_thresh s0 \<and> match_thresh s = match_thresh s0 \<and>
     max_time_lost s = max_time_lost s0"
proof (induction rule: reachable.induct)
  case start
  then show ?case by simp
next
  case (step s ds s' out)
  then have inv: "tracker_inv s" by simp
  from tracker_update_config[OF step.hyps(2) inv] tracker_inv_step[OF inv step.hyps(2)] step
  show ?case by simp
qed

lemma tracker_run_reachable: "tracker_run s dss = Inr s' \<Longrightarrow> reachable s0 s \<Longrightarrow> reachable s0 s'"
proof (induction dss arbitrary: s)
  case Nil
  then show ?case by simp
next
  case (Cons ds dss)
  from Cons.prems(1) obtain s1 out where u: "tracker_update s ds = Inr (s1, out)"
    and r: "tracker_run s1 dss = Inr s'"
    by (auto simp add: and_then_def split: sum.splits)
  from Cons.IH[OF r reachable.step[OF Cons.prems(2) u]] show ?case .
qed

lemma track_update_confirmed:
  "is_confirmed (track_update t b sc f) \<longleftrightarrow>
     is_confirmed t \<or> (age t + 1 \<ge> 3 \<and> mean (confidence_history (track_update t b sc f)) > 0.5)"
  by (cases b) (auto simp add: track_update_def update_kalman_def Let_def split: prod.splits)

lemma track_update_confidence_history:
  "confidence_history (track_update t b sc f) =
     (if length (confidence_history t) \<ge> 10 then tl (confidence_history t @ [sc])
      else confidence_history t @ [sc])"
  by (cases b) (auto simp add: track_update_def update_kalman_def Let_def split: prod.splits)

lemma bump_confirmed [simp]: "is_confirmed (bump t) = is_confirmed t"
  by (simp add: bump_def)

lemma bump_ne_update: "0 \<le> time_since_update t \<Longrightarrow> bump t \<noteq> track_update x b sc f"
proof
  assume a: "0 \<le> time_since_update t" "bump t = track_update x b sc f"
  from a(2) have "time_since_update (bump t) = time_since_update (track_update x b sc f)" by simp
  with a(1) show False by simp
qed

lemma tracker_update_ids:
  assumes inv: "tracker_inv s" and u: "tracker_update s ds = Inr (s', out)"
  shows "track_id_count s \<le> track_id_count s'"
    and "removed_tracks s \<subseteq> removed_tracks s'"
    and "set (keys_of s') \<union> (removed_tracks s' - removed_tracks s) =
           set (keys_of s) \<union> {track_id_count s..<track_id_count s'}"
proof -
  note i = tracker_inv_facts[OF inv]
  have "track_id_count s \<le> track_id_count s' \<and> removed_tracks s \<subseteq> removed_tracks s' \<and>
      set (keys_of s') \<union> (removed_tracks s' - removed_tracks s) =
           set (keys_of s) \<union> {track_id_count s..<track_id_count s'}"
  proof (cases "ds = []")
    case True
    with u have "s' = tick s" by (simp add: tracker_update_empty)
    then show ?thesis by auto
  next
    case False
    from tracker_update_shape[OF inv False] u obtain s3 where
      s': "s' = s3\<lparr> removed_tracks := removed_tracks s \<union>
                      {k. \<exists>t. (k, t) \<in> set (tracks s3) \<and> time_since_update t > max_time_lost s},
                    tracks := filter (\<lambda>(k, t). \<not> time_since_update t > max_time_lost s)
                                (tracks s3) \<rparr>"
      and r: "round_rel (set ds) {''person'', ''ball''} (tick s) s3 (map obj_track_id out)"
      and lt: "\<forall>k\<in>set (keys_of s3). k < track_id_count s3"
      and so: "sorted_wrt (<) (keys_of s3)" by auto
    have le: "track_id_count s \<le> track_id_count s3" using round_rel_facts(2)[OF r] by simp
    have keys3: "keys_of s3 = keys_of s @ [track_id_count s..<track_id_count s3]"
      using round_rel_facts(3)[OF r] by simp
    let ?sw = "{k. \<exists>t. (k, t) \<in> set (tracks s3) \<and> time_since_update t > max_time_lost s}"
    have split: "set (keys_of s') \<union> ?sw = set (keys_of s3)"
      by (force simp add: s' keys_of_def)
    have "?sw \<subseteq> set (keys_of s3)" by (force simp add: keys_of_def)
    moreover have "set (keys_of s3) \<inter> removed_tracks s = {}"
      using i(4,5) by (auto simp add: keys3)
    ultimately have "?sw \<inter> removed_tracks s = {}" by blast
    then have "removed_tracks s' - removed_tracks s = ?sw" by (auto simp add: s')
    with split keys3 have "set (keys_of s') \<union> (removed_tracks s' - removed_tracks s) =
           set (keys_of s) \<union> {track_id_count s..<track_id_count s3}" by simp
    moreover have "track_id_count s' = track_id_count s3" by (simp add: s')
    moreover have "removed_tracks s \<subseteq> removed_tracks s'" by (simp add: s')
    ultimately show ?thesis using le by simp
  qed
  then show "track_id_count s \<le> track_id_count s'"
    and "removed_tracks s \<subseteq> removed_tracks s'"
    and "set (keys_of s') \<union> (removed_tracks s' - removed_tracks s) =
           set (keys_of s) \<union> {track_id_count s..<track_id_count s'}" by blast+
qed

lemma reachable_ids:
  "reachable (AdvancedMultiObjectTracker tt mt mtl mlen) s \<Longrightarrow>
     set (keys_of s) \<union> removed_tracks s = {..<track_id_count s}"
proof (induction rule: reachable.induct)
  case start
  then show ?case by (simp add: AdvancedMultiObjectTracker_def keys_of_def)
next
  case (step s ds s' out)
  from step.hyps(1) have inv: "tracker_inv s" by (rule reachable_inv)
  note f = tracker_update_ids[OF inv step.hyps(2)]
  have "set (keys_of s') \<union> removed_tracks s' =
      set (keys_of s') \<union> (removed_tracks s' - removed_tracks s) \<union> removed_tracks s"
    using f(2) by auto
  also have "\<dots> = {..<track_id_count s} \<union> {track_id_count s..<track_id_count s'}"
    using f(3) step.IH by auto
  also have "\<dots> = {..<track_id_count s'}" using f(1) by auto
  finally show ?case .
qed

subsection \<open>What one analyzer call changes\<close>

lemma only_passes_differ_refl: "only_passes_differ s s"
  unfolding only_passes_differ_def by simp

lemma only_passes_differ_trans:
  assumes "only_passes_differ s s1" and "only_passes_differ s1 s2"
  shows "only_passes_differ s s2"
proof -
  from assms have "s1 = s\<lparr> pass_events := pass_events s1 \<rparr>"
    and "s2 = s1\<lparr> pass_events := pass_events s2 \<rparr>"
    unfolding only_passes_differ_def by simp_all
  then have "s2 = s\<lparr> pass_events := pass_events s1 \<rparr>\<lparr> pass_events := pass_events s2 \<rparr>"
    by simp
  then have "s2 = s\<lparr> pass_events := pass_events s2 \<rparr>" by simp
  then show ?thesis unfolding only_passes_differ_def .
qed

lemma pass_between_frame:
  "pass_between s c n = Inr s' \<Longrightarrow> only_passes_differ s s'"
  unfolding pass_between_def only_passes_differ_def
  by (auto simp add: and_then_def Let_def split: sum.splits if_splits)

lemma scan_pairs_frame:
  "scan_pairs recent s = Inr s' \<Longrightarrow> only_passes_differ s s'"
proof (induction recent s rule: scan_pairs.induct)
  case (1 current "next" rest s)
  from "1.prems" obtain s1 where a: "pass_between s current next = Inr s1"
    and b: "scan_pairs (next # rest) s1 = Inr s'"
    by (auto simp add: and_then_def split: sum.splits)
  from pass_between_frame[OF a] "1.IH"[OF b] show ?case by (rule only_passes_differ_trans)
qed (simp_all add: only_passes_differ_refl)

lemma detect_passes_frame:
  "detect_passes s fid = Inr s' \<Longrightarrow> only_passes_differ s s'"
  unfolding detect_passes_def
  by (auto simp add: and_then_def only_passes_differ_refl split: if_splits sum.splits
      dest: scan_pairs_frame)

lemma end_possession_effect:
  assumes "current_possession s = Some cur" and "fps s \<noteq> 0"
  shows "end_possession s fid =
     Inr (if fid - start_frame cur \<ge> frame_threshold s then
            s\<lparr> possession_events := possession_events s @
                   [cur\<lparr> end_frame := Some fid, duration := fid - start_frame cur \<rparr>],
               team_possession_time := (team_possession_time s)
                   (team cur := team_possession_time s (team cur)
                                  + real_of_int (fid - start_frame cur) / fps s),
               total_possession_time := total_possession_time s
                                  + real_of_int (fid - start_frame cur) / fps s,
               current_possession := None \<rparr>
          else s\<lparr> current_possession := None \<rparr>)"
  using assms by (simp add: end_possession_def Let_def truediv_def and_then_def)

lemma end_possession_none: "current_possession s = None \<Longrightarrow> end_possession s fid = Inr s"
  by (simp add: end_possession_def)

lemma end_possession_log:
  assumes "end_possession s fid = Inr s'"
  shows "fps s' = fps s \<and> frame_threshold s' = frame_threshold s \<and>
     possession_threshold s' = possession_threshold s \<and>
     (possession_events s' = possession_events s \<or>
      (\<exists>cur. current_possession s = Some cur \<and> frame_threshold s \<le> fid - start_frame cur \<and>
         possession_events s' = possession_events s @ [closed_span cur fid]))"
  using assms unfolding end_possession_def closed_span_def
  by (auto simp add: Let_def truediv_def and_then_def split: option.splits if_splits)

lemma analyze_possession_log:
  assumes "analyze_possession s fid = Inr s'"
  shows "fps s' = fps s \<and> frame_threshold s' = frame_threshold s \<and>
     possession_threshold s' = possession_threshold s \<and>
     (possession_events s' = possession_events s \<or>
      (\<exists>cur. current_possession s = Some cur \<and> frame_threshold s \<le> fid - start_frame cur \<and>
         possession_events s' = possession_events s @ [closed_span cur fid]))"
proof -
  have upd: "fps (update_possession s fid) = fps s \<and>
      frame_threshold (update_possession s fid) = frame_threshold s \<and>
      possession_threshold (update_possession s fid) = possession_threshold s \<and>
      possession_events (update_possession s fid) = possession_events s"
    by (simp add: update_possession_def split: option.splits)
  have st: "\<And>x p. fps (start_possession x p fid) = fps x \<and>
      frame_threshold (start_possession x p fid) = frame_threshold x \<and>
      possession_threshold (start_possession x p fid) = possession_threshold x \<and>
      possession_events (start_possession x p fid) = possession_events x"
    by (simp add: start_possession_def)
  have cases: "s' = s \<or> s' = update_possession s fid \<or> end_possession s fid = Inr s' \<or>
      (\<exists>p. current_possession s = None \<and> s' = start_possession s p fid) \<or>
      (\<exists>s1 p. end_possession s fid = Inr s1 \<and> s' = start_possession s1 p fid)"
  proof (cases "ball_tracks s = [] \<or> player_tracks s = []")
    case True
    with assms show ?thesis by (simp add: analyze_possession_def)
  next
    case False
    define cl where "cl = find_closest (sample_center (last (ball_tracks s))) fid (player_tracks s) None"
    define far where "far = (if current_possession s \<noteq> None then end_possession s fid else Inr s)"
    have far_cases: "far = Inr s' \<Longrightarrow> s' = s \<or> end_possession s fid = Inr s'"
      by (auto simp add: far_def split: if_splits)
    have unf: "analyze_possession s fid =
        (case cl of
           None \<Rightarrow> far
         | Some (cp, md) \<Rightarrow>
             if md < 80 then
               (if current_possession s = None \<or>
                   map_option player_id (current_possession s) \<noteq> Some (sample_track_id cp)
                then and_then (if current_possession s \<noteq> None then end_possession s fid else Inr s)
                       (\<lambda>s1. Inr (start_possession s1 cp fid))
                else Inr (update_possession s fid))
             else far)"
      using False
      by (simp add: analyze_possession_def Let_def cl_def[symmetric] far_def
          split: option.splits prod.splits)
    show ?thesis
    proof (cases cl)
      case None
      with assms unf have "far = Inr s'" by simp
      from far_cases[OF this] show ?thesis by blast
    next
      case (Some pr)
      obtain cp md where pr: "pr = (cp, md)" by (cases pr)
      show ?thesis
      proof (cases "md < 80")
        case far: False
        with assms unf Some pr have "far = Inr s'" by simp
        from far_cases[OF this] show ?thesis by blast
      next
        case near: True
        show ?thesis
        proof (cases "current_possession s")
          case None
          with assms unf Some pr near have "s' = start_possession s cp fid"
            by (simp add: and_then_def)
          with None show ?thesis by blast
        next
          case cur: (Some c)
          show ?thesis
          proof (cases "player_id c = sample_track_id cp")
            case True
            with assms unf Some pr near cur have "s' = update_possession s fid" by simp
            then show ?thesis by blast
          next
            case False
            with assms unf Some pr near cur
            have "and_then (end_possession s fid) (\<lambda>s1. Inr (start_possession s1 cp fid)) = Inr s'"
              by simp
            then obtain s1 where "end_possession s fid = Inr s1" "s' = start_possession s1 cp fid"
              by (auto simp add: and_then_def split: sum.splits)
            then show ?thesis by blast
          qed
        qed
      qed
    qed
  qed
  then consider
      (unchanged) "s' = s"
    | (continued) "s' = update_possession s fid"
    | (closed) "end_possession s fid = Inr s'"
    | (opened) p where "s' = start_possession s p fid" "current_possession s = None"
    | (handover) s1 p where "end_possession s fid = Inr s1" "s' = start_possession s1 p fid"
    by blast
  then show ?thesis
  proof cases
    case unchanged
    then show ?thesis by simp
  next
    case continued
    then show ?thesis using upd by simp
  next
    case closed
    then show ?thesis by (rule end_possession_log)
  next
    case opened
    then show ?thesis using st[of s p] by simp
  next
    case handover
    from end_possession_log[OF handover(1)] st[of s1 p] handover(2) show ?thesis by auto
  qed
qed

lemma update_tracks_log:
  assumes "update_tracks s objs fid = Inr s'"
  shows "fps s' = fps s \<and> frame_threshold s' = frame_threshold s \<and>
     possession_threshold s' = possession_threshold s \<and>
     (possession_events s' = possession_events s \<or>
      (\<exists>cur. current_possession s = Some cur \<and> frame_threshold s \<le> fid - start_frame cur \<and>
         possession_events s' = possession_events s @ [closed_span cur fid]))"
proof -
  define s1 where "s1 = (case filter (\<lambda>obj. in_class obj = ''ball'') objs of
                  [] \<Rightarrow> s
                | b # bs \<Rightarrow> s\<lparr> ball_tracks := ball_tracks s @
                                 [to_sample (max_by in_score b bs) fid] \<rparr>)"
  define s2 where "s2 = s1\<lparr> player_tracks := player_tracks s1 @
      map (\<lambda>player. to_sample player fid) (filter (\<lambda>obj. in_class obj = ''person'') objs) \<rparr>"
  have s2: "fps s2 = fps s" "frame_threshold s2 = frame_threshold s"
      "possession_threshold s2 = possession_threshold s"
      "possession_events s2 = possession_events s" "current_possession s2 = current_possession s"
    by (simp_all add: s2_def s1_def split: list.splits)
  have "update_tracks s objs fid = and_then (analyze_possession s2 fid) (\<lambda>s3. detect_passes s3 fid)"
    by (simp add: update_tracks_def Let_def s2_def s1_def cong: list.case_cong)
  with assms obtain s3 where a: "analyze_possession s2 fid = Inr s3"
    and d: "detect_passes s3 fid = Inr s'"
    by (auto simp add: and_then_def split: sum.splits)
  from detect_passes_frame[OF d] have "s' = s3\<lparr> pass_events := pass_events s' \<rparr>"
    unfolding only_passes_differ_def .
  then have e: "fps s' = fps s3 \<and> frame_threshold s' = frame_threshold s3 \<and>
    possession_threshold s' = possession_threshold s3 \<and>
    possession_events s' = possession_events s3"
    by (metis analyzer.select_convs(1,2,3,6) analyzer.surjective analyzer.update_convs(11))
  from analyze_possession_log[OF a] s2 e show ?thesis by simp
qed

lemma analyzer_run_config:
  "analyzer_run s frames = Inr s' \<Longrightarrow>
     fps s' = fps s \<and> frame_threshold s' = frame_threshold s \<and>
     possession_threshold s' = possession_threshold s"
proof (induction frames arbitrary: s)
  case Nil
  then show ?case by simp
next
  case (Cons fr frames)
  obtain objs fid where fr: "fr = (objs, fid)" by (cases fr)
  from Cons.prems fr obtain s1 where u: "update_tracks s objs fid = Inr s1"
    and r: "analyzer_run s1 frames = Inr s'"
    by (auto simp add: and_then_def split: sum.splits)
  from update_tracks_log[OF u] Cons.IH[OF r] show ?case by simp
qed

subsection \<open>Unfolding the tracker on concrete input\<close>

lemmas tracker_eval =
  tracker_update_def default_tracker_def AdvancedMultiObjectTracker_def
  update_class_tracks_def and_then_def new_track_def Let_def handle_lost_tracks_def
  AdvancedTrack_def get_smoothed_bbox_def get_average_confidence_def mean_def
  match_tracks_def class_match_thresh_def class_params_def compute_iou_def union_area_def
  inter_area_def truediv_def track_update_def update_kalman_def predict_tracks_def
  is_active_def predict_def

text \<open>Comparing a Euclidean distance with a numeral, without computing the root.\<close>

lemma sqrt_less_numeral: "sqrt x < numeral n \<longleftrightarrow> x < (numeral n)\<^sup>2"
proof -
  have e: "sqrt ((numeral n)\<^sup>2) = (numeral n :: real)"
    by (simp only: real_sqrt_abs abs_numeral)
  show ?thesis using real_sqrt_less_iff[of x "(numeral n)\<^sup>2"] unfolding e .
qed

lemma sqrt_le_numeral: "sqrt x \<le> numeral n \<longleftrightarrow> x \<le> (numeral n)\<^sup>2"
proof -
  have e: "sqrt ((numeral n)\<^sup>2) = (numeral n :: real)"
    by (simp only: real_sqrt_abs abs_numeral)
  show ?thesis using real_sqrt_le_iff[of x "(numeral n)\<^sup>2"] unfolding e .
qed

lemmas analyzer_eval =
  BallPossessionAnalyzer_def update_tracks_def and_then_def Let_def to_sample_def get_center_def
  analyze_possession_def calculate_distance_def start_possession_def update_possession_def
  end_possession_def truediv_def get_player_team_def mean_def detect_passes_def
  pass_between_def end_frame_of_def py_int_def sqrt_less_numeral sqrt_le_numeral

subsection \<open>C1: the lost-track sweep\<close>

text \<open>
  C1 asks for a sweep that deletes a track once its \<^verbatim>\<open>time_since_update\<close> exceeds the
  \<^verbatim>\<open>max_time_lost\<close> of the track's class (20 for \<^verbatim>\<open>person\<close>, 10 for \<^verbatim>\<open>ball\<close>), and no other
  track. \<^verbatim>\<open>_handle_lost_tracks\<close> compares with the tracker-wide \<^verbatim>\<open>max_time_lost\<close> (15)
  whatever the class; the per-class values of \<^verbatim>\<open>class_params\<close> are never read. The
  evaluation below runs the default tracker on non-empty detection lists: a ball track is
  still live with \<^verbatim>\<open>time_since_update = 11\<close>; a person track is live at 15 and deleted at
  16, which is below the 20 of its class.
\<close>

theorem lost_track_sweep_uses_global_horizon:
  "(\<exists>s t. tracker_run default_tracker
             (([ball_det 0 0 (9 / 10)]) # replicate 11 [person_det 500 500 (2 / 10)]) = Inr s \<and>
          map_of (tracks s) 0 = Some t \<and> class_name t = ''ball'' \<and>
          time_since_update t = 11 \<and> removed_tracks s = {}) \<and>
   (\<exists>s t. tracker_run default_tracker
             (([person_det 0 0 (9 / 10)]) # replicate 15 [ball_det 500 500 (2 / 10)]) = Inr s \<and>
          map_of (tracks s) 0 = Some t \<and> class_name t = ''person'' \<and>
          time_since_update t = 15 \<and> removed_tracks s = {}) \<and>
   (\<exists>s. tracker_run default_tracker
             (([person_det 0 0 (9 / 10)]) # replicate 16 [ball_det 500 500 (2 / 10)]) = Inr s \<and>
          tracks s = [] \<and> removed_tracks s = {0})"
  by (simp add: tracker_eval person_det_def ball_det_def eval_nat_numeral)

subsection \<open>C2: pass detection\<close>

text \<open>
  C2 asks for exactly one pass event when a logged span of player A ends at frame \<open>F\<close>
  and the next logged span, of player B, starts at \<open>F + 3\<close> within 50 px. With the default
  analyzer (30 frames per second, threshold half a second) a span is logged only when it
  closes, at least 15 frames after it started; \<^verbatim>\<open>_detect_passes\<close> then keeps only the
  spans that ended less than 5 frames ago, so the first span of the pair is never among
  them. The evaluation below: player 1 holds the ball in frames 1 to 15 and loses it at 16,
  player 2, 30 px away, takes it at frame 19 and loses it at 34; both spans are logged and
  no pass event is.
\<close>

theorem pass_after_three_frames_not_recorded:
  "\<exists>s a b.
     analyzer_run (BallPossessionAnalyzer 30 (1 / 2))
       (frames_from 1 (replicate 15 [player_obj 1 100 100, ball_obj 108 108] @
                       replicate 3 [ball_obj 1000 1000] @
                       replicate 15 [player_obj 2 130 100, ball_obj 138 108] @
                       [[ball_obj 1000 1000]])) = Inr s \<and>
     possession_events s = [a, b] \<and>
     player_id a = 1 \<and> end_frame a = Some 16 \<and> player_id b = 2 \<and> start_frame b = 19 \<and>
     calculate_distance (last (positions a)) (hd (positions b)) = 30 \<and>
     pass_events s = []"
  by (simp add: analyzer_eval player_obj_def ball_obj_def eval_nat_numeral)

subsection \<open>C3: the association round\<close>



subsection \<open>C4: closing a possession span\<close>





subsection \<open>C5: \<^verbatim>\<open>time_since_update\<close>\<close>

text \<open>
  C5. In any state the tracker can reach, every \<^verbatim>\<open>update\<close> call first adds 1 to the
  \<^verbatim>\<open>time_since_update\<close> of every live track, also when the detection list is empty (then
  that is all that happens to the track). A track that is still live when the call returns
  is either the incremented track, or the incremented track after \<^verbatim>\<open>AdvancedTrack.update\<close>
  with one of the call's detections; its \<^verbatim>\<open>time_since_update\<close> is 0 exactly in the second
  case (for a non-empty detection list: exactly when the call reports the track), and the
  old value plus 1 otherwise.
\<close>

theorem time_since_update_step:
  assumes "reachable (AdvancedMultiObjectTracker tt mt mtl mlen) s"
    and "tracker_update s ds = Inr (s', out)"
    and "map_of (tracks s) k = Some t"
  shows "0 \<le> time_since_update t \<and>
     (ds = [] \<longrightarrow>
        map_of (tracks s') k = Some (t\<lparr> time_since_update := time_since_update t + 1 \<rparr>)) \<and>
     (\<forall>t'. map_of (tracks s') k = Some t' \<longrightarrow>
        (t' = t\<lparr> time_since_update := time_since_update t + 1 \<rparr> \<or>
         (\<exists>d\<in>set ds. t' = track_update (t\<lparr> time_since_update := time_since_update t + 1 \<rparr>)
                               (det_bbox d) (det_score d) (tracker_frame_id s + 1))) \<and>
        (time_since_update t' = 0 \<longleftrightarrow>
           (\<exists>d\<in>set ds. t' = track_update (t\<lparr> time_since_update := time_since_update t + 1 \<rparr>)
                               (det_bbox d) (det_score d) (tracker_frame_id s + 1))) \<and>
        (time_since_update t' \<noteq> 0 \<longrightarrow> time_since_update t' = time_since_update t + 1) \<and>
        (ds \<noteq> [] \<longrightarrow> (time_since_update t' = 0 \<longleftrightarrow> k \<in> obj_track_id ` set out)))"
proof -
  from assms(1) have inv: "tracker_inv s" by (rule reachable_inv)
  from tracker_inv_facts(6)[OF inv assms(3)] have nn: "0 \<le> time_since_update t" .
  have e: "ds = [] \<longrightarrow>
        map_of (tracks s') k = Some (t\<lparr> time_since_update := time_since_update t + 1 \<rparr>)"
    using assms(2,3) by (auto simp add: tracker_update_empty map_of_tick bump_def)
  have "\<forall>t'. map_of (tracks s') k = Some t' \<longrightarrow>
        (t' = bump t \<or>
         (\<exists>d\<in>set ds. t' = track_update (bump t) (det_bbox d) (det_score d) (tracker_frame_id s + 1))) \<and>
        (time_since_update t' = 0 \<longleftrightarrow>
           (\<exists>d\<in>set ds. t' = track_update (bump t) (det_bbox d) (det_score d) (tracker_frame_id s + 1))) \<and>
        (time_since_update t' \<noteq> 0 \<longrightarrow> time_since_update t' = time_since_update t + 1) \<and>
        (ds \<noteq> [] \<longrightarrow> (time_since_update t' = 0 \<longleftrightarrow> k \<in> obj_track_id ` set out))"
  proof (intro allI impI)
    fix t' assume t': "map_of (tracks s') k = Some t'"
    from tracker_update_track[OF inv assms(2,3) t'] nn bump_ne_update[OF nn]
    show "(t' = bump t \<or>
         (\<exists>d\<in>set ds. t' = track_update (bump t) (det_bbox d) (det_score d) (tracker_frame_id s + 1))) \<and>
        (time_since_update t' = 0 \<longleftrightarrow>
           (\<exists>d\<in>set ds. t' = track_update (bump t) (det_bbox d) (det_score d) (tracker_frame_id s + 1))) \<and>
        (time_since_update t' \<noteq> 0 \<longrightarrow> time_since_update t' = time_since_update t + 1) \<and>
        (ds \<noteq> [] \<longrightarrow> (time_since_update t' = 0 \<longleftrightarrow> k \<in> obj_track_id ` set out))"
      by (elim disjE conjE) auto
  qed
  with nn e show ?thesis unfolding bump_def by blast
qed

theorem time_since_update_step_witness:
  "\<exists>s1 s2 out t0 t1 t0' t1'.
     tracker_run default_tracker [[person_det 0 0 (9 / 10), person_det 100 0 (9 / 10)]] = Inr s1 \<and>
     reachable default_tracker s1 \<and>
     tracker_update s1 [person_det 0 0 (9 / 10)] = Inr (s2, out) \<and>
     map_of (tracks s1) 0 = Some t0 \<and> map_of (tracks s1) 1 = Some t1 \<and>
     map_of (tracks s2) 0 = Some t0' \<and> map_of (tracks s2) 1 = Some t1' \<and>
     time_since_update t0 = 0 \<and> time_since_update t1 = 0 \<and>
     map obj_track_id out = [0] \<and>
     time_since_update t0' = 0 \<and> time_since_update t1' = 1"
proof -
  have "\<exists>s1 s2 out t0 t1 t0' t1'.
     tracker_run default_tracker [[person_det 0 0 (9 / 10), person_det 100 0 (9 / 10)]] = Inr s1 \<and>
     tracker_update s1 [person_det 0 0 (9 / 10)] = Inr (s2, out) \<and>
     map_of (tracks s1) 0 = Some t0 \<and> map_of (tracks s1) 1 = Some t1 \<and>
     map_of (tracks s2) 0 = Some t0' \<and> map_of (tracks s2) 1 = Some t1' \<and>
     time_since_update t0 = 0 \<and> time_since_update t1 = 0 \<and> map obj_track_id out = [0]"
    by (simp add: tracker_eval person_det_def)
  then obtain s1 s2 out t0 t1 t0' t1' where e:
    "tracker_run default_tracker [[person_det 0 0 (9 / 10), person_det 100 0 (9 / 10)]] = Inr s1"
    "tracker_update s1 [person_det 0 0 (9 / 10)] = Inr (s2, out)"
    "map_of (tracks s1) 0 = Some t0" "map_of (tracks s1) 1 = Some t1"
    "map_of (tracks s2) 0 = Some t0'" "map_of (tracks s2) 1 = Some t1'"
    "time_since_update t0 = 0" "time_since_update t1 = 0" "map obj_track_id out = [0]"
    by (elim exE conjE) (rule that)
  have r: "reachable default_tracker s1"
    by (rule tracker_run_reachable[OF e(1) reachable.start])
  then have r': "reachable (AdvancedMultiObjectTracker (3 / 10) (7 / 10) 15 3) s1"
    by (simp add: default_tracker_def)
  have ids: "obj_track_id ` set out = {0}" using e(9) by (metis list.set(1,2) list.set_map)
  from time_since_update_step[OF r' e(2) e(3)] e(5) ids
  have a: "time_since_update t0' = 0" by simp
  from time_since_update_step[OF r' e(2) e(4)] e(6,8) ids
  have b: "time_since_update t1' = 1" by auto
  show ?thesis
    by (rule exI[of _ s1], rule exI[of _ s2], rule exI[of _ out], rule exI[of _ t0],
        rule exI[of _ t1], rule exI[of _ t0'], rule exI[of _ t1'], intro conjI r e a b)
qed

subsection \<open>C6: \<^verbatim>\<open>reset\<close>\<close>

text \<open>
  C6. Whatever state the analyzer is in (so after any sequence of \<^verbatim>\<open>update_tracks\<close> calls),
  after \<^verbatim>\<open>reset()\<close> the queries \<^verbatim>\<open>get_possession_stats()\<close> and \<^verbatim>\<open>get_pass_stats()\<close> return
  exactly what they return on a freshly constructed analyzer: the fallback dictionaries.
  \<^verbatim>\<open>reset\<close> leaves \<^verbatim>\<open>fps\<close> and the frame threshold as they were.
\<close>

theorem reset_restores_default_stats:
  "get_possession_stats (reset s) = get_possession_stats (BallPossessionAnalyzer f t) \<and>
   get_pass_stats env (reset s) = get_pass_stats env' (BallPossessionAnalyzer f t) \<and>
   get_possession_stats (reset s) = fallback_possession_stats \<and>
   get_pass_stats env (reset s) = fallback_pass_stats \<and>
   reset (BallPossessionAnalyzer f t) = BallPossessionAnalyzer f t \<and>
   fps (reset s) = fps s \<and> frame_threshold (reset s) = frame_threshold s"
  by (simp add: get_possession_stats_def get_pass_stats_def reset_def BallPossessionAnalyzer_def)

subsection \<open>C7: the range of \<^verbatim>\<open>compute_iou\<close>\<close>



subsection \<open>C8: track ids are never reused\<close>

text \<open>
  C8. In every state the tracker reaches from its constructor, the ids of the live tracks
  and the ids in \<^verbatim>\<open>removed_tracks\<close> together are exactly the numbers below
  \<^verbatim>\<open>track_id_count\<close>, no id is both live and removed, and the live table lists its tracks
  in strictly increasing id order. An \<^verbatim>\<open>update\<close> call never lowers the counter and never
  takes an id out of \<^verbatim>\<open>removed_tracks\<close>; a track that was live before the call and is not
  live after it has its id in \<^verbatim>\<open>removed_tracks\<close>; and a track that is live after the call
  but was not before has an id from the counter's old value up to its new one, so above
  every id that was ever live or removed before.
\<close>

theorem track_ids_never_reused:
  assumes "reachable (AdvancedMultiObjectTracker tt mt mtl mlen) s"
    and "tracker_update s ds = Inr (s', out)"
  shows "set (map fst (tracks s)) \<union> removed_tracks s = {..<track_id_count s} \<and>
     set (map fst (tracks s')) \<union> removed_tracks s' = {..<track_id_count s'} \<and>
     set (map fst (tracks s')) \<inter> removed_tracks s' = {} \<and>
     sorted_wrt (<) (map fst (tracks s')) \<and>
     track_id_count s \<le> track_id_count s' \<and>
     removed_tracks s \<subseteq> removed_tracks s' \<and>
     (\<forall>k\<in>set (map fst (tracks s)). k \<notin> set (map fst (tracks s')) \<longrightarrow> k \<in> removed_tracks s') \<and>
     (\<forall>k\<in>set (map fst (tracks s')). k \<notin> set (map fst (tracks s)) \<longrightarrow>
        track_id_count s \<le> k \<and> k < track_id_count s' \<and> k \<notin> removed_tracks s \<and>
        (\<forall>j\<in>set (map fst (tracks s)). j < k))"
proof -
  from assms(1) have inv: "tracker_inv s" by (rule reachable_inv)
  from assms have r': "reachable (AdvancedMultiObjectTracker tt mt mtl mlen) s'"
    by (rule reachable.step)
  then have inv': "tracker_inv s'" by (rule reachable_inv)
  note i = tracker_inv_facts[OF inv] and i' = tracker_inv_facts[OF inv']
  note a = reachable_ids[OF assms(1)] and a' = reachable_ids[OF r']
  note f = tracker_update_ids[OF inv assms(2)]
  have 7: "\<forall>k\<in>set (keys_of s). k \<notin> set (keys_of s') \<longrightarrow> k \<in> removed_tracks s'"
    using f(3) by auto
  have 8: "\<forall>k\<in>set (keys_of s'). k \<notin> set (keys_of s) \<longrightarrow>
        track_id_count s \<le> k \<and> k < track_id_count s' \<and> k \<notin> removed_tracks s \<and>
        (\<forall>j\<in>set (keys_of s). j < k)"
  proof (intro ballI impI)
    fix k assume k: "k \<in> set (keys_of s')" "k \<notin> set (keys_of s)"
    with f(3) have "track_id_count s \<le> k \<and> k < track_id_count s'" by auto
    moreover from this i(4) have "k \<notin> removed_tracks s" by auto
    ultimately show "track_id_count s \<le> k \<and> k < track_id_count s' \<and> k \<notin> removed_tracks s \<and>
        (\<forall>j\<in>set (keys_of s). j < k)" using i(3) by auto
  qed
  from a a' i'(5) i'(1) f(1,2) 7 8 show ?thesis unfolding keys_of_def by blast
qed

theorem track_ids_never_reused_witness:
  "\<exists>s3 s4 out.
     tracker_run (AdvancedMultiObjectTracker (3 / 10) (7 / 10) 1 3)
       [[person_det 0 0 (9 / 10)], [person_det 100 0 (9 / 10)], [person_det 200 0 (9 / 10)]] = Inr s3 \<and>
     reachable (AdvancedMultiObjectTracker (3 / 10) (7 / 10) 1 3) s3 \<and>
     tracker_update s3 [person_det 300 0 (9 / 10)] = Inr (s4, out) \<and>
     map fst (tracks s3) = [1, 2] \<and> removed_tracks s3 = {0} \<and> track_id_count s3 = 3 \<and>
     map fst (tracks s4) = [2, 3] \<and> removed_tracks s4 = {0, 1} \<and> track_id_count s4 = 4 \<and>
     set (map fst (tracks s4)) \<union> removed_tracks s4 = {..<track_id_count s4} \<and>
     set (map fst (tracks s4)) \<inter> removed_tracks s4 = {}"
proof -
  have "\<exists>s3 s4 out.
     tracker_run (AdvancedMultiObjectTracker (3 / 10) (7 / 10) 1 3)
       [[person_det 0 0 (9 / 10)], [person_det 100 0 (9 / 10)], [person_det 200 0 (9 / 10)]] = Inr s3 \<and>
     tracker_update s3 [person_det 300 0 (9 / 10)] = Inr (s4, out) \<and>
     map fst (tracks s3) = [1, 2] \<and> removed_tracks s3 = {0} \<and> track_id_count s3 = 3 \<and>
     map fst (tracks s4) = [2, 3] \<and> removed_tracks s4 = {0, 1} \<and> track_id_count s4 = 4"
    by (simp add: tracker_eval person_det_def insert_commute)
  then obtain s3 s4 out where e:
    "tracker_run (AdvancedMultiObjectTracker (3 / 10) (7 / 10) 1 3)
       [[person_det 0 0 (9 / 10)], [person_det 100 0 (9 / 10)], [person_det 200 0 (9 / 10)]] = Inr s3"
    "tracker_update s3 [person_det 300 0 (9 / 10)] = Inr (s4, out)"
    "map fst (tracks s3) = [1, 2]" "removed_tracks s3 = {0}" "track_id_count s3 = 3"
    "map fst (tracks s4) = [2, 3]" "removed_tracks s4 = {0, 1}" "track_id_count s4 = 4"
    by (elim exE conjE) (rule that)
  have r: "reachable (AdvancedMultiObjectTracker (3 / 10) (7 / 10) 1 3) s3"
    by (rule tracker_run_reachable[OF e(1) reachable.start])
  from track_ids_never_reused[OF r e(2)]
  have a: "set (map fst (tracks s4)) \<union> removed_tracks s4 = {..<track_id_count s4}"
    "set (map fst (tracks s4)) \<inter> removed_tracks s4 = {}" by blast+
  show ?thesis
    by (rule exI[of _ s3], rule exI[of _ s4], rule exI[of _ out], intro conjI r e a)
qed

subsection \<open>C9: confirmation is permanent\<close>

text \<open>
  C9. A track's \<^verbatim>\<open>is_confirmed\<close> flag is monotone. It starts false; \<^verbatim>\<open>update\<close> sets it when
  the new age is at least 3 and the mean of the kept confidence samples (the last ten at
  most) exceeds 0.5; and no tracker call ever clears it: a track that is confirmed before
  an \<^verbatim>\<open>update\<close> call of the tracker and still live after it is confirmed after it, whatever
  its mean confidence has become.
\<close>

theorem is_confirmed_monotone:
  "is_confirmed (AdvancedTrack tid b sc f c) = False \<and>
   (is_confirmed (track_update t b sc f) \<longleftrightarrow>
      is_confirmed t \<or>
      (age t + 1 \<ge> 3 \<and> mean (confidence_history (track_update t b sc f)) > 0.5)) \<and>
   (length (confidence_history t) \<le> 10 \<longrightarrow>
      confidence_history (track_update t b sc f) =
        drop (length (confidence_history t @ [sc]) - 10) (confidence_history t @ [sc])) \<and>
   (reachable (AdvancedMultiObjectTracker tt mt mtl mlen) s \<and>
    tracker_update s ds = Inr (s', out) \<and>
    map_of (tracks s) k = Some t0 \<and> map_of (tracks s') k = Some t1 \<and> is_confirmed t0
      \<longrightarrow> is_confirmed t1)"
proof (intro conjI impI)
  show "is_confirmed (AdvancedTrack tid b sc f c) = False" by simp
  show "is_confirmed (track_update t b sc f) \<longleftrightarrow>
      is_confirmed t \<or>
      (age t + 1 \<ge> 3 \<and> mean (confidence_history (track_update t b sc f)) > 0.5)"
    by (rule track_update_confirmed)
next
  assume "length (confidence_history t) \<le> 10"
  then show "confidence_history (track_update t b sc f) =
        drop (length (confidence_history t @ [sc]) - 10) (confidence_history t @ [sc])"
    by (cases "confidence_history t") (auto simp add: track_update_confidence_history)
next
  assume a: "reachable (AdvancedMultiObjectTracker tt mt mtl mlen) s \<and>
    tracker_update s ds = Inr (s', out) \<and>
    map_of (tracks s) k = Some t0 \<and> map_of (tracks s') k = Some t1 \<and> is_confirmed t0"
  then have inv: "tracker_inv s" using reachable_inv by blast
  from a have u: "tracker_update s ds = Inr (s', out)" and t0: "map_of (tracks s) k = Some t0"
    and t1: "map_of (tracks s') k = Some t1" and c: "is_confirmed t0" by simp_all
  from tracker_update_track[OF inv u t0 t1] c show "is_confirmed t1"
    by (auto simp add: track_update_confirmed)
qed

theorem is_confirmed_monotone_witness:
  "\<exists>s3 s4 out t0 t1.
     tracker_run default_tracker
       [[person_det 0 0 (6 / 10)], [person_det 0 0 (6 / 10)], [person_det 0 0 (6 / 10)]] = Inr s3 \<and>
     reachable default_tracker s3 \<and>
     tracker_update s3 [person_det 0 0 (1 / 10)] = Inr (s4, out) \<and>
     map_of (tracks s3) 0 = Some t0 \<and> map_of (tracks s4) 0 = Some t1 \<and>
     is_confirmed t0 \<and> mean (confidence_history t1) \<le> 0.5 \<and> is_confirmed t1"
proof -
  have "\<exists>s3 s4 out t0 t1.
     tracker_run default_tracker
       [[person_det 0 0 (6 / 10)], [person_det 0 0 (6 / 10)], [person_det 0 0 (6 / 10)]] = Inr s3 \<and>
     tracker_update s3 [person_det 0 0 (1 / 10)] = Inr (s4, out) \<and>
     map_of (tracks s3) 0 = Some t0 \<and> map_of (tracks s4) 0 = Some t1 \<and>
     is_confirmed t0 \<and> mean (confidence_history t1) \<le> 0.5"
    by (simp add: tracker_eval person_det_def)
  then obtain s3 s4 out t0 t1 where e:
    "tracker_run default_tracker
       [[person_det 0 0 (6 / 10)], [person_det 0 0 (6 / 10)], [person_det 0 0 (6 / 10)]] = Inr s3"
    "tracker_update s3 [person_det 0 0 (1 / 10)] = Inr (s4, out)"
    "map_of (tracks s3) 0 = Some t0" "map_of (tracks s4) 0 = Some t1"
    "is_confirmed t0" "mean (confidence_history t1) \<le> 0.5" by blast
  have r: "reachable default_tracker s3"
    by (rule tracker_run_reachable[OF e(1) reachable.start])
  from is_confirmed_monotone[of _ _ _ _ _ _ "3 / 10" "7 / 10" 15 3 s3
      "[person_det 0 0 (1 / 10)]" s4 out 0 t0 t1] r e
  have "is_confirmed t1" by (simp add: default_tracker_def)
  with r e show ?thesis by blast
qed

subsection \<open>C10: what one \<^verbatim>\<open>update\<close> call reports\<close>



end
